theory Spec2Isabelle
  imports Complex_Main "HOL-Library.Sublist"
begin

section \<open>Python primitives used by marimo\_anywhere\<close>

text \<open>
  A \<^typ>\<open>string\<close> is a Python \<^verbatim>\<open>str\<close> whose code points lie below 256. The two
  character classes are those of Python's \<^verbatim>\<open>re\<close> on \<^verbatim>\<open>str\<close> patterns: \<^verbatim>\<open>\s\<close> (the
  same characters \<^verbatim>\<open>str.strip()\<close> removes) and \<^verbatim>\<open>\w\<close>.
\<close>

definition newline :: char where
  "newline = CHR 0x0A"

definition is_space :: "char \<Rightarrow> bool" where
  "is_space c \<longleftrightarrow>
     c \<in> set [CHR 0x09, CHR 0x0A, CHR 0x0B, CHR 0x0C, CHR 0x0D, CHR 0x1C, CHR 0x1D, CHR 0x1E,
                CHR 0x1F, CHR 0x20, CHR 0x85, CHR 0xA0]"

definition is_word :: "char \<Rightarrow> bool" where
  "is_word c \<longleftrightarrow>
     (let n = (of_char c :: int)
      in (48 \<le> n \<and> n \<le> 57) \<or> (65 \<le> n \<and> n \<le> 90) \<or> n = 95 \<or> (97 \<le> n \<and> n \<le> 122)
         \<or> n \<in> {170, 178, 179, 181, 185, 186, 188, 189, 190}
         \<or> (192 \<le> n \<and> n \<le> 214) \<or> (216 \<le> n \<and> n \<le> 246) \<or> 248 \<le> n)"

text \<open>\<^verbatim>\<open>str.strip()\<close> and \<^verbatim>\<open>str.replace("\n", "")\<close>.\<close>

definition py_strip :: "string \<Rightarrow> string" where
  "py_strip s = rev (dropWhile is_space (rev (dropWhile is_space s)))"

definition remove_newlines :: "string \<Rightarrow> string" where
  "remove_newlines s = filter (\<lambda>c. c \<noteq> newline) s"

text \<open>
  Python's \<^verbatim>\<open>str.split(sep)\<close> for a non-empty separator: the text is scanned from
  the left, every occurrence of the separator found closes the current piece and the
  scan resumes behind it. The accumulator holds the piece being read.
\<close>

function py_split_acc :: "string \<Rightarrow> string \<Rightarrow> string \<Rightarrow> string list" where
  "py_split_acc sep acc [] = [acc]"
| "py_split_acc sep acc (c # cs) =
     (if sep \<noteq> [] \<and> prefix sep (c # cs)
      then acc # py_split_acc sep [] (drop (length sep) (c # cs))
      else py_split_acc sep (acc @ [c]) cs)"
  by pat_completeness auto
termination
  by (relation "measure (\<lambda>(sep, acc, s). length s)") auto

definition py_split :: "string \<Rightarrow> string \<Rightarrow> string list" where
  "py_split sep s = py_split_acc sep [] s"

text \<open>Python's \<^verbatim>\<open>sep.join(pieces)\<close>.\<close>

fun py_join :: "string \<Rightarrow> string list \<Rightarrow> string" where
  "py_join sep [] = []"
| "py_join sep [x] = x"
| "py_join sep (x # y # ys) = x @ sep @ py_join sep (y # ys)"

text \<open>
  The slice \<^verbatim>\<open>xs[i:j]\<close>: a negative index counts from the end, and both indices are
  clamped to the list.
\<close>

definition py_slice :: "'a list \<Rightarrow> int \<Rightarrow> int \<Rightarrow> 'a list" where
  "py_slice xs i j =
     (let n = int (length xs);
          lo = (if i < 0 then max 0 (i + n) else min i n);
          hi = (if j < 0 then max 0 (j + n) else min j n)
      in take (nat (hi - lo)) (drop (nat lo) xs))"

text \<open>\<^verbatim>\<open>str(n)\<close> for an integer: its decimal digits, with a minus sign when negative.\<close>

function py_str_digits :: "int \<Rightarrow> string" where
  "py_str_digits n =
     (if n < 10 then [char_of (48 + n)] else py_str_digits (n div 10) @ [char_of (48 + n mod 10)])"
  by pat_completeness auto
termination
  by (relation "measure nat") auto

definition py_str :: "int \<Rightarrow> string" where
  "py_str i = (if i < 0 then CHR ''-'' # py_str_digits (- i) else py_str_digits i)"

section \<open>cli.py: the two line-joining rewrites\<close>

text \<open>
  \<^verbatim>\<open>re.sub(r"\s*,\s*", ", ", s)\<close>. At a position the pattern matches exactly when the
  run of whitespace starting there is followed by a comma; the match then also takes
  the whole run of whitespace behind the comma. Where it does not match, the character
  is copied and the scan moves on by one.
\<close>

function re_sub_comma :: "string \<Rightarrow> string" where
  "re_sub_comma [] = []"
| "re_sub_comma (c # cs) =
     (case dropWhile is_space (c # cs) of
        [] \<Rightarrow> c # re_sub_comma cs
      | d # r \<Rightarrow>
          if d = CHR '','' then '', '' @ re_sub_comma (dropWhile is_space r)
          else c # re_sub_comma cs)"
  by pat_completeness auto
termination
proof (relation "measure length")
  fix c cs d r
  assume "dropWhile is_space (c # cs) = d # r"
  then have "length (d # r) \<le> length (c # cs)"
    by (metis length_dropWhile_le)
  moreover have "length (dropWhile is_space r) \<le> length r"
    by (rule length_dropWhile_le)
  ultimately show "(dropWhile is_space r, c # cs) \<in> measure length" by simp
qed auto

text \<open>
  \<^verbatim>\<open>re.sub(r"\s*\n\s*", " ", s)\<close>. The greedy \<^verbatim>\<open>\s*\<close> on both sides make a match cover
  the whole run of whitespace starting at the position, provided the run holds a
  newline.
\<close>

function re_sub_newline :: "string \<Rightarrow> string" where
  "re_sub_newline [] = []"
| "re_sub_newline (c # cs) =
     (if newline \<in> set (takeWhile is_space (c # cs))
      then '' '' @ re_sub_newline (dropWhile is_space (c # cs))
      else c # re_sub_newline cs)"
  by pat_completeness auto
termination
proof (relation "measure length")
  fix c cs
  assume "newline \<in> set (takeWhile is_space (c # cs))"
  then have "takeWhile is_space (c # cs) \<noteq> []" by auto
  then have "is_space c" by (auto split: if_splits)
  then have "dropWhile is_space (c # cs) = dropWhile is_space cs" by simp
  moreover have "length (dropWhile is_space cs) \<le> length cs" by (rule length_dropWhile_le)
  ultimately show "(dropWhile is_space (c # cs), c # cs) \<in> measure length" by simp
qed auto

text \<open>
  \<^verbatim>\<open>function_pattern = ^(\s*def\s+\w+\s*\()([^\)]*?)(\):)\<close> tried at one position (a
  line start). The result is group 1, group 2 and the text behind the match; group 3
  is always \<^verbatim>\<open>):\<close>. Every quantifier of group 1 is followed by a character outside its
  class, so backtracking finds no other way to match it; the lazy group 2 cannot step
  over a closing parenthesis, so it ends at the first one, which must be followed by a
  colon.
\<close>

definition function_pattern_match :: "string \<Rightarrow> (string \<times> string \<times> string) option" where
  "function_pattern_match s =
     (let s1 = dropWhile is_space s in
      if \<not> prefix ''def'' s1 then None else
      let s2 = drop 3 s1 in
      if s2 = [] \<or> \<not> is_space (hd s2) then None else
      let s3 = dropWhile is_space s2 in
      if s3 = [] \<or> \<not> is_word (hd s3) then None else
      let s4 = dropWhile is_word s3;
          s5 = dropWhile is_space s4 in
      if \<not> prefix ''('' s5 then None else
      let s6 = drop 1 s5;
          arguments = takeWhile (\<lambda>c. c \<noteq> CHR '')'') s6;
          s7 = dropWhile (\<lambda>c. c \<noteq> CHR '')'') s6 in
      if \<not> prefix ''):'' s7 then None
      else Some (take (length s - length s6) s, arguments, drop 2 s7))"

text \<open>
  \<^verbatim>\<open>reformat_function\<close>:
  \<^verbatim>\<open>re.sub(r"\s*,\s*", ", ", arguments.replace("\n", "").strip())\<close> between the
  prefix and the suffix.
\<close>

definition reformat_function :: "string \<Rightarrow> string \<Rightarrow> string" where
  "reformat_function pre arguments =
     (let single_line_arguments = re_sub_comma (py_strip (remove_newlines arguments))
      in pre @ single_line_arguments @ ''):'')"

lemma function_pattern_match_shorter:
  assumes "function_pattern_match s = Some (pre, arguments, rest)"
  shows "length rest < length s"
proof -
  let ?s1 = "dropWhile is_space s"
  let ?s5 = "dropWhile is_space (dropWhile is_word (dropWhile is_space (drop 3 ?s1)))"
  let ?s7 = "dropWhile (\<lambda>c. c \<noteq> CHR '')'') (drop 1 ?s5)"
  from assms have p: "prefix ''):'' ?s7" and r: "rest = drop 2 ?s7"
    by (auto simp: function_pattern_match_def Let_def split: if_splits)
  have "length ?s7 \<le> length (drop 1 ?s5)" by (rule length_dropWhile_le)
  also have "\<dots> \<le> length ?s5" by simp
  also have "\<dots> \<le> length (dropWhile is_word (dropWhile is_space (drop 3 ?s1)))"
    by (rule length_dropWhile_le)
  also have "\<dots> \<le> length (dropWhile is_space (drop 3 ?s1))" by (rule length_dropWhile_le)
  also have "\<dots> \<le> length (drop 3 ?s1)" by (rule length_dropWhile_le)
  also have "\<dots> \<le> length ?s1" by simp
  also have "\<dots> \<le> length s" by (rule length_dropWhile_le)
  finally have "length ?s7 \<le> length s" .
  moreover from p have "2 \<le> length ?s7" by (auto simp: prefix_def)
  ultimately show ?thesis using r by simp
qed

text \<open>
  \<^verbatim>\<open>function_pattern.sub(reformat_function, code)\<close>. The flag says whether the
  position is a line start, where \<^verbatim>\<open>^\<close> matches under \<^verbatim>\<open>re.MULTILINE\<close>: the start of
  the text and behind every newline. A match is replaced and the scan resumes behind
  it (behind a colon, so not at a line start); elsewhere one character is copied.
\<close>

function function_pattern_sub :: "bool \<Rightarrow> string \<Rightarrow> string" where
  "function_pattern_sub bol [] = []"
| "function_pattern_sub bol (c # cs) =
     (case (if bol then function_pattern_match (c # cs) else None) of
        Some (pre, arguments, rest) \<Rightarrow>
          reformat_function pre arguments @ function_pattern_sub False rest
      | None \<Rightarrow> c # function_pattern_sub (c = newline) cs)"
  by pat_completeness auto
termination
  by (relation "measure (\<lambda>(bol, s). length s)")
     (auto split: if_splits dest: function_pattern_match_shorter)

definition format_function_declarations_to_single_line :: "string \<Rightarrow> string" where
  "format_function_declarations_to_single_line code = function_pattern_sub True code"

text \<open>
  \<^verbatim>\<open>return_pattern = ^(?P<indent>\s*return\s*\([\s\S]*?\))\<close> tried at one position: the
  matched text and the text behind it. The lazy \<^verbatim>\<open>[\s\S]*?\<close> ends at the first closing
  parenthesis behind the opening one; without one there is no match.
\<close>

definition return_pattern_match :: "string \<Rightarrow> (string \<times> string) option" where
  "return_pattern_match s =
     (let s1 = dropWhile is_space s in
      if \<not> prefix ''return'' s1 then None else
      let s3 = dropWhile is_space (drop 6 s1) in
      if \<not> prefix ''('' s3 then None else
      let s4 = drop 1 s3;
          rest = dropWhile (\<lambda>c. c \<noteq> CHR '')'') s4 in
      if rest = [] then None
      else Some (take (length s - length rest + 1) s, drop 1 rest))"

text \<open>\<^verbatim>\<open>reformat_return\<close>: first the newlines, then the commas.\<close>

definition reformat_return :: "string \<Rightarrow> string" where
  "reformat_return return_statement =
     (let formatted = re_sub_newline return_statement;
          formatted = re_sub_comma formatted
      in formatted)"

lemma return_pattern_match_shorter:
  assumes "return_pattern_match s = Some (m, rest)"
  shows "length rest < length s"
proof -
  let ?s1 = "dropWhile is_space s"
  let ?s3 = "dropWhile is_space (drop 6 ?s1)"
  let ?r = "dropWhile (\<lambda>c. c \<noteq> CHR '')'') (drop 1 ?s3)"
  from assms have ne: "?r \<noteq> []" and r: "rest = drop 1 ?r"
    by (auto simp: return_pattern_match_def Let_def split: if_splits)
  have "length ?r \<le> length (drop 1 ?s3)" by (rule length_dropWhile_le)
  also have "\<dots> \<le> length ?s3" by simp
  also have "\<dots> \<le> length (drop 6 ?s1)" by (rule length_dropWhile_le)
  also have "\<dots> \<le> length ?s1" by simp
  also have "\<dots> \<le> length s" by (rule length_dropWhile_le)
  finally have "length ?r \<le> length s" .
  moreover have "length rest \<le> length ?r - 1" using r by simp
  moreover from ne have "length ?r \<noteq> 0" by (metis length_0_conv)
  ultimately show ?thesis by linarith
qed

function return_pattern_sub :: "bool \<Rightarrow> string \<Rightarrow> string" where
  "return_pattern_sub bol [] = []"
| "return_pattern_sub bol (c # cs) =
     (case (if bol then return_pattern_match (c # cs) else None) of
        Some (return_statement, rest) \<Rightarrow>
          reformat_return return_statement @ return_pattern_sub False rest
      | None \<Rightarrow> c # return_pattern_sub (c = newline) cs)"
  by pat_completeness auto
termination
  by (relation "measure (\<lambda>(bol, s). length s)")
     (auto split: if_splits dest: return_pattern_match_shorter)

definition format_return_statements_to_single_line :: "string \<Rightarrow> string" where
  "format_return_statements_to_single_line code = return_pattern_sub True code"

text \<open>The Line-Joiner: the declaration rewrite, then the return rewrite.\<close>

definition line_joiner :: "string \<Rightarrow> string" where
  "line_joiner source_code =
     format_return_statements_to_single_line
       (format_function_declarations_to_single_line source_code)"


section \<open>cli.py: the segmenter\<close>

text \<open>
  The syntax tree \<^verbatim>\<open>ast.parse\<close> returns, as far as the segmenter looks at it: a
  \<^verbatim>\<open>FunctionDef\<close> with its \<^verbatim>\<open>lineno\<close>, its \<^verbatim>\<open>end_lineno\<close> and its child nodes, a
  \<^verbatim>\<open>Return\<close> with its \<^verbatim>\<open>lineno\<close> and its child nodes, and any other node with its child
  nodes. The parser itself is a parameter of the model.
\<close>

datatype ast =
    FunctionDef int int "ast list"
  | Return int "ast list"
  | Other "ast list"

fun iter_child_nodes :: "ast \<Rightarrow> ast list" where
  "iter_child_nodes (FunctionDef lineno end_lineno children) = children"
| "iter_child_nodes (Return lineno children) = children"
| "iter_child_nodes (Other children) = children"

lemma size_iter_child_nodes: "size_list size (iter_child_nodes n) < size n"
  by (cases n) simp_all

text \<open>
  \<^verbatim>\<open>ast.walk\<close>: breadth first, from a queue; a node is taken from the front, its
  children are appended at the back, and the node is yielded.
\<close>

function walk_queue :: "ast list \<Rightarrow> ast list" where
  "walk_queue [] = []"
| "walk_queue (node # todo) = node # walk_queue (todo @ iter_child_nodes node)"
  by pat_completeness auto
termination
proof (relation "measure (size_list size)")
  fix node :: ast and todo :: "ast list"
  have "size_list size (todo @ iter_child_nodes node)
          = size_list size todo + size_list size (iter_child_nodes node)"
    by (induction todo) simp_all
  with size_iter_child_nodes [of node]
  show "(todo @ iter_child_nodes node, node # todo) \<in> measure (size_list size)" by simp
qed simp

definition walk :: "ast \<Rightarrow> ast list" where
  "walk node = walk_queue [node]"

text \<open>\<^verbatim>\<open>new_lines\<close>: the lines joined by a newline.\<close>

definition new_lines :: "string list \<Rightarrow> string" where
  "new_lines code_lines = py_join [newline] code_lines"

text \<open>
  The inner loop over \<^verbatim>\<open>ast.walk(node)\<close>: the largest \<^verbatim>\<open>lineno\<close> of a \<^verbatim>\<open>Return\<close>,
  starting from 0.
\<close>

fun max_return_line :: "int \<Rightarrow> ast list \<Rightarrow> int" where
  "max_return_line end_line [] = end_line"
| "max_return_line end_line (Return lineno children # ns) =
     max_return_line (max end_line lineno) ns"
| "max_return_line end_line (n # ns) = max_return_line end_line ns"

text \<open>The end line of a declaration, with the fall-back to \<^verbatim>\<open>node.end_lineno\<close>.\<close>

definition end_line_of :: "ast \<Rightarrow> int \<Rightarrow> int" where
  "end_line_of node end_lineno =
     (let end_line = max_return_line 0 (walk node)
      in if end_line = 0 then end_lineno else end_line)"

text \<open>
  The outer loop of \<^verbatim>\<open>yield_next_function_block\<close> over the walked nodes, with the
  cursor \<^verbatim>\<open>last_processed_line\<close>. It produces \<^verbatim>\<open>lines_before_func\<close> and \<^verbatim>\<open>func_lines\<close>
  of every block yielded; the \<^verbatim>\<open>return None\<close> on an empty \<^verbatim>\<open>return_bef\<close> ends the
  generator.
\<close>

fun function_block_lines :: "string list \<Rightarrow> int \<Rightarrow> ast list \<Rightarrow> (string list \<times> string list) list" where
  "function_block_lines org_souce_code last_processed_line [] = []"
| "function_block_lines org_souce_code last_processed_line (FunctionDef lineno end_lineno children # nodes) =
     (let start_line = lineno;
          end_line = end_line_of (FunctionDef lineno end_lineno children) end_lineno;
          lines_before_func = py_slice org_souce_code last_processed_line start_line;
          func_lines = py_slice org_souce_code start_line (end_line - 1);
          return_bef = new_lines lines_before_func
      in if return_bef = [] then []
         else (lines_before_func, func_lines)
                # function_block_lines org_souce_code (end_line - 1) nodes)"
| "function_block_lines org_souce_code last_processed_line (node # nodes) =
     function_block_lines org_souce_code last_processed_line nodes"

text \<open>
  \<^verbatim>\<open>yield_next_function_block\<close>, read to its end (the caller takes \<^verbatim>\<open>list(...)\<close> of
  it): both rewrites, the split into lines, the parse, and the blocks as text.
\<close>

definition yield_next_function_block :: "(string \<Rightarrow> ast) \<Rightarrow> string \<Rightarrow> (string \<times> string) list" where
  "yield_next_function_block ast_parse source_code =
     (let formatted_source_code = format_function_declarations_to_single_line source_code;
          formatted_source_code = format_return_statements_to_single_line formatted_source_code;
          org_souce_code = py_split [newline] formatted_source_code;
          tree = ast_parse formatted_source_code
      in map (\<lambda>(lines_before_func, func_lines). (new_lines lines_before_func, new_lines func_lines))
           (function_block_lines org_souce_code 0 (walk tree)))"

section \<open>cli.py: the whitelist and the writer\<close>

text \<open>
  What a call raises: \<^verbatim>\<open>IndentationError\<close> (or a subclass of it) with its text, the only
  exception that \<^verbatim>\<open>minify_to_file\<close> handles; any other exception (\<^verbatim>\<open>SyntaxError\<close>, \<^verbatim>\<open>re.error\<close>,
  ...) with its text; and the \<^verbatim>\<open>ZeroDivisionError\<close> of a division.
\<close>

datatype raised = IndentationError string | OtherException string | ZeroDivisionError

text \<open>
  The collaborators of \<^verbatim>\<open>minify_to_file\<close>, as parameters: \<^verbatim>\<open>ast.parse\<close>,
  \<^verbatim>\<open>re.match(expr, text, re.DOTALL | re.IGNORECASE)\<close> (whether it finds a match),
  \<^verbatim>\<open>textwrap.dedent\<close>, \<^verbatim>\<open>textwrap.indent(text, prefix='    ')\<close>, and \<^verbatim>\<open>mini\<close>. The parser, the
  matcher and \<^verbatim>\<open>mini\<close> return (\<open>Inr\<close>) or raise (\<open>Inl\<close>).
\<close>

record collaborators =
  ast_parse :: "string \<Rightarrow> raised + ast"
  re_match :: "string \<Rightarrow> string \<Rightarrow> raised + bool"
  dedent :: "string \<Rightarrow> string"
  indent :: "string \<Rightarrow> string"
  mini :: "string \<Rightarrow> raised + string"

text \<open>
  What a run leaves behind: the texts passed to \<^verbatim>\<open>f.write\<close>, the lines printed, and
  the messages of \<^verbatim>\<open>logger.info\<close> about whitelisted blocks, each in order.
\<close>

record sink =
  written :: "string list"
  printed :: "string list"
  logged :: "string list"

text \<open>
  How a run ends: the function returns, \<^verbatim>\<open>SystemExit\<close> is raised with a code, or an
  exception that nothing handles leaves the function. The interpreter ends with status
  0, with the code of the \<^verbatim>\<open>SystemExit\<close>, and with status 1 after a traceback.
\<close>

datatype outcome = Returned | SystemExit int | Raised raised


text \<open>
  The loop \<^verbatim>\<open>for expr in whitelist_expression\<close>: the expression at which it breaks, or
  \<open>None\<close> when it runs to its \<^verbatim>\<open>else\<close>; \<open>Inl\<close> when \<^verbatim>\<open>re.match\<close> raises on the way.
\<close>

fun whitelist_found :: "collaborators \<Rightarrow> string list \<Rightarrow> string \<Rightarrow> raised + string option" where
  "whitelist_found env [] block_dedent = Inr None"
| "whitelist_found env (expr # exprs) block_dedent =
     (case re_match env expr block_dedent of
        Inl e \<Rightarrow> Inl e
      | Inr found \<Rightarrow>
          if found then Inr (Some expr) else whitelist_found env exprs block_dedent)"

text \<open>\<^verbatim>\<open>f"{msg:=^240}"\<close>: the message centred in 240 columns of equals signs.\<close>

definition center_240 :: "string \<Rightarrow> string" where
  "center_240 msg =
     (let pad = 240 - length msg; left = pad div 2
      in replicate left CHR ''='' @ msg @ replicate (pad - left) CHR ''='')"

definition hint :: string where
  "hint = ''HINT: Ensure functions explicitly returns, e.g. return None''"

text \<open>
  The body of the loop over the blocks for one block: the text to write for it
  (\<open>Inr\<close>), or the way the run ends there (\<open>Inl\<close>), each with the sink as it is then.
  \<^verbatim>\<open>except IndentationError\<close> handles that exception only; an exception of \<^verbatim>\<open>re.match\<close>,
  and any other exception of \<^verbatim>\<open>mini\<close>, leaves the function.
\<close>

definition output_code_block :: "collaborators \<Rightarrow> string list option \<Rightarrow> nat \<Rightarrow> string \<Rightarrow> sink \<Rightarrow> (outcome \<times> sink) + (string \<times> sink)" where
  "output_code_block env whitelist_expression counter in_func out =
     (case whitelist_expression of
        None \<Rightarrow> Inr (in_func, out)
      | Some exprs \<Rightarrow>
          (let block_dedent = dedent env in_func in
           case whitelist_found env exprs block_dedent of
             Inl e \<Rightarrow> Inl (Raised e, out)
           | Inr (Some expr) \<Rightarrow>
               Inr (in_func,
                    out\<lparr>logged := logged out @
                      [''Whitelisted expression found in block '' @ py_str (int counter) @ '': '' @ expr]\<rparr>)
           | Inr None \<Rightarrow>
               (case mini env block_dedent of
                  Inl (IndentationError e) \<Rightarrow>
                    Inl (SystemExit 1,
                         out\<lparr>printed := printed out @
                           [center_240 (''Error within this block: '' @ e), block_dedent, hint]\<rparr>)
                | Inl (OtherException e) \<Rightarrow> Inl (Raised (OtherException e), out)
                | Inl ZeroDivisionError \<Rightarrow> Inl (Raised ZeroDivisionError, out)
                | Inr mini_dedent \<Rightarrow> Inr (indent env mini_dedent, out))))"

fun write_blocks :: "collaborators \<Rightarrow> string list option \<Rightarrow> nat \<Rightarrow> (string \<times> string) list \<Rightarrow> sink \<Rightarrow> outcome \<times> sink" where
  "write_blocks env whitelist_expression counter [] out = (Returned, out)"
| "write_blocks env whitelist_expression counter ((before_func, in_func) # blocks) out =
     (case output_code_block env whitelist_expression (counter + 1) in_func out of
        Inl ended \<Rightarrow> ended
      | Inr (block, out') \<Rightarrow>
          write_blocks env whitelist_expression (counter + 1) blocks
            (out'\<lparr>written := written out' @ [newline # before_func, newline # block]\<rparr>))"

definition trailer :: string where
  \<open>trailer = py_join [newline]
     [''    return'', '''', '''', ''if __name__ == "__main__":'', ''    app.run()'', '''']\<close>

definition empty_sink :: sink where
  "empty_sink = \<lparr>written = [], printed = [], logged = []\<rparr>"

definition file_content :: "sink \<Rightarrow> string" where
  "file_content out = concat (written out)"

text \<open>
  \<^verbatim>\<open>stat().st_size\<close> of a file that holds a text: its number of bytes in UTF-8, one for a
  code point below 128 and two for one from 128 to 255.
\<close>

fun st_size :: "string \<Rightarrow> int" where
  "st_size [] = 0"
| "st_size (c # cs) = (if digit7 c then 2 else 1) + st_size cs"

text \<open>
  \<^verbatim>\<open>minify_to_file\<close> on the text of the input file: how the run ends, and the sink. The
  content of the output file is the concatenation of \<^verbatim>\<open>written\<close>. The size of the input
  is taken first. \<^verbatim>\<open>list(yield_next_function_block(source_code))\<close> parses the text with its
  lines joined, so an exception of \<^verbatim>\<open>ast.parse\<close> leaves the function before anything is
  written. After the trailer, \<^verbatim>\<open>new_size/org_size\<close> is computed for the last message of the
  log, which raises \<^verbatim>\<open>ZeroDivisionError\<close> when the input file is empty; the text of that
  message, a percentage, is not modelled.
\<close>

definition minify_to_file :: "collaborators \<Rightarrow> string \<Rightarrow> string list option \<Rightarrow> outcome \<times> sink" where
  "minify_to_file env source_code whitelist_expression =
     (let org_size = st_size source_code in
      case ast_parse env (line_joiner source_code) of
        Inl e \<Rightarrow> (Raised e, empty_sink)
      | Inr tree \<Rightarrow>
          (case write_blocks env whitelist_expression 0
                  (yield_next_function_block (\<lambda>text. tree) source_code) empty_sink of
             (Returned, out) \<Rightarrow>
               (let out' = out\<lparr>written := written out @ [trailer]\<rparr>;
                    new_size = st_size (file_content out')
                in if org_size = 0 then (Raised ZeroDivisionError, out') else (Returned, out'))
           | (SystemExit n, out) \<Rightarrow> (SystemExit n, out)
           | (Raised e, out) \<Rightarrow> (Raised e, out)))"

section \<open>web.py\<close>

definition prefix_url :: string where
  "prefix_url =
     ''https://marimo.app?mode=read&embed=true&include-code=false&show-chrome=false&code=''"

text \<open>
  \<^verbatim>\<open>code = org_url.split('#code/')[-1]\<close>: the split never returns an empty list, so
  the index -1 is always in range and is the last piece.
\<close>

definition make_marimo_url_read_only :: "string \<Rightarrow> string" where
  "make_marimo_url_read_only org_url =
     (let code = last (py_split ''#code/'' org_url);
          output_url = prefix_url @ code
      in output_url)"

text \<open>An occurrence of \<open>d\<close> in \<open>s\<close>, by the text before it and the text behind it.\<close>

definition occurs_at :: "string \<Rightarrow> string \<Rightarrow> string \<Rightarrow> string \<Rightarrow> bool" where
  "occurs_at d s a b \<longleftrightarrow> s = a @ d @ b"

text \<open>
  The operating system as \<^verbatim>\<open>kill_process_id\<close> meets it: what the n-th call of
  \<^verbatim>\<open>os.kill\<close> does (it returns, or raises one of two errors) and what the n-th call of
  \<^verbatim>\<open>time.time()\<close> returns, both counted from 0 within one call of \<^verbatim>\<open>kill_process_id\<close>.
\<close>

datatype kill_result = Signalled | ProcessLookupError | PermissionError

record os_world =
  os_kill :: "nat \<Rightarrow> kill_result"
  time_time :: "nat \<Rightarrow> real"

datatype py_exception = ValueError string | PermissionError_raised string

text \<open>
  The polling loop \<^verbatim>\<open>while time.time() < deadline\<close>. Each round reads the clock once
  and calls \<^verbatim>\<open>os.kill(pid, 0)\<close> once; \<open>k\<close> and \<open>t\<close> count the calls made so far. The
  loop runs as long as the clock stays below the deadline and the process answers, so
  the model has fuel: \<open>None\<close> is a loop still running when the fuel is spent. \<open>Some (Inl r)\<close>
  is the function left from inside the loop, \<open>Some (Inr k)\<close> the loop left at the deadline
  after \<open>k\<close> calls of \<^verbatim>\<open>os.kill\<close>.
\<close>

fun poll_exit :: "nat \<Rightarrow> os_world \<Rightarrow> int \<Rightarrow> real \<Rightarrow> nat \<Rightarrow> nat \<Rightarrow> ((py_exception + unit) + nat) option" where
  "poll_exit 0 w pid deadline k t = None"
| "poll_exit (Suc fuel) w pid deadline k t =
     (if time_time w t < deadline then
        (case os_kill w k of
           ProcessLookupError \<Rightarrow> Some (Inl (Inr ()))
         | PermissionError \<Rightarrow>
             Some (Inl (Inl (PermissionError_raised
               (''No permission to check/terminate pid='' @ py_str pid))))
         | Signalled \<Rightarrow> poll_exit fuel w pid deadline (k + 1) (t + 1))
      else Some (Inr k))"

text \<open>
  \<^verbatim>\<open>kill_process_id(pid, timeout_s=...)\<close>: \<open>Inr ()\<close> is the normal return, \<open>Inl\<close> an
  exception raised.
\<close>

definition kill_process_id :: "nat \<Rightarrow> os_world \<Rightarrow> int \<Rightarrow> real \<Rightarrow> (py_exception + unit) option" where
  "kill_process_id fuel w pid timeout_s =
     (if pid \<le> 0 then Some (Inl (ValueError ''pid must be a positive integer''))
      else case os_kill w 0 of
        ProcessLookupError \<Rightarrow> Some (Inr ())
      | PermissionError \<Rightarrow>
          Some (Inl (PermissionError_raised (''No permission to terminate pid='' @ py_str pid)))
      | Signalled \<Rightarrow>
          (let deadline = time_time w 0 + timeout_s in
           case poll_exit fuel w pid deadline 1 1 of
             None \<Rightarrow> None
           | Some (Inl r) \<Rightarrow> Some r
           | Some (Inr k) \<Rightarrow>
               (case os_kill w k of
                  ProcessLookupError \<Rightarrow> Some (Inr ())
                | PermissionError \<Rightarrow>
                    Some (Inl (PermissionError_raised
                      (''No permission to force-kill pid='' @ py_str pid)))
                | Signalled \<Rightarrow> Some (Inr ()))))"

section \<open>Notions used in the statements about the segmenter\<close>

text \<open>
  The declarations among walked nodes, in the order of the walk, with the start line and
  the end boundary the segmenter computes for each.
\<close>

fun is_FunctionDef :: "ast \<Rightarrow> bool" where
  "is_FunctionDef (FunctionDef lineno end_lineno children) = True"
| "is_FunctionDef node = False"

definition declarations :: "ast list \<Rightarrow> ast list" where
  "declarations nodes = filter is_FunctionDef nodes"

fun start_line :: "ast \<Rightarrow> int" where
  "start_line (FunctionDef lineno end_lineno children) = lineno"
| "start_line node = 0"

fun last_line :: "ast \<Rightarrow> int" where
  "last_line (FunctionDef lineno end_lineno children) = end_lineno"
| "last_line node = 0"

definition end_boundary :: "ast \<Rightarrow> int" where
  "end_boundary node = end_line_of node (last_line node)"

text \<open>The line numbers of the \<^verbatim>\<open>Return\<close> nodes among walked nodes.\<close>

fun return_lines :: "ast list \<Rightarrow> int list" where
  "return_lines [] = []"
| "return_lines (Return lineno children # ns) = lineno # return_lines ns"
| "return_lines (n # ns) = return_lines ns"

text \<open>
  The value of \<^verbatim>\<open>last_processed_line\<close> behind the given nodes when the generator has
  not stopped: one less than the end boundary of the last declaration.
\<close>

definition cursor_after :: "int \<Rightarrow> ast list \<Rightarrow> int" where
  "cursor_after last_processed_line nodes =
     (case declarations nodes of
        [] \<Rightarrow> last_processed_line
      | d # ds \<Rightarrow> end_boundary (last (d # ds)) - 1)"

text \<open>The lines numbered \<open>a\<close> through \<open>b\<close>, both included, counting from 1.\<close>

definition line_range :: "string list \<Rightarrow> int \<Rightarrow> int \<Rightarrow> string list" where
  "line_range lines a b = map (\<lambda>n. lines ! nat (n - 1)) [max 1 a .. min b (int (length lines))]"

text \<open>The normalized text, its lines, and the declarations the segmenter walks over.\<close>

definition normalized_lines :: "string \<Rightarrow> string list" where
  "normalized_lines source_code = py_split [newline] (line_joiner source_code)"

definition walked_declarations :: "(string \<Rightarrow> ast) \<Rightarrow> string \<Rightarrow> ast list" where
  "walked_declarations parse source_code =
     declarations (walk (parse (line_joiner source_code)))"

text \<open>
  Declarations in file order, one below the other: each header is an existing line
  that is not empty, lies at or below the end boundary of the declaration before it
  (below the cursor), and has its own end boundary further down, within the text.
\<close>

fun in_file_order :: "string list \<Rightarrow> int \<Rightarrow> ast list \<Rightarrow> bool" where
  "in_file_order lines cursor [] = True"
| "in_file_order lines cursor (d # ds) =
     (0 \<le> cursor \<and> cursor < start_line d \<and> start_line d < end_boundary d
      \<and> end_boundary d - 1 \<le> int (length lines)
      \<and> lines ! nat (start_line d - 1) \<noteq> []
      \<and> in_file_order lines (end_boundary d - 1) ds)"

section \<open>Notions used in the statements about the writer\<close>


text \<open>
  Nothing raises while a block is processed: without a whitelist nothing is called; with
  one, \<^verbatim>\<open>re.match\<close> returns for every expression tried, and \<^verbatim>\<open>mini\<close> returns if it is
  called.
\<close>

definition block_passes :: "collaborators \<Rightarrow> string list option \<Rightarrow> string \<Rightarrow> bool" where
  "block_passes env whitelist_expression in_func \<longleftrightarrow>
     (case whitelist_expression of
        None \<Rightarrow> True
      | Some exprs \<Rightarrow>
          (case whitelist_found env exprs (dedent env in_func) of
             Inl e \<Rightarrow> False
           | Inr (Some expr) \<Rightarrow> True
           | Inr None \<Rightarrow> \<not> isl (mini env (dedent env in_func))))"

text \<open>The text of the structural error that the transformation raises on a block.\<close>

definition error_text :: "collaborators \<Rightarrow> string \<Rightarrow> string" where
  "error_text env in_func =
     (case mini env (dedent env in_func) of
        Inl (IndentationError e) \<Rightarrow> e
      | Inl (OtherException e) \<Rightarrow> []
      | Inl ZeroDivisionError \<Rightarrow> []
      | Inr mini_dedent \<Rightarrow> [])"

text \<open>The diagnostic printed for a block on which the transformation raises it.\<close>

definition diagnostic :: "collaborators \<Rightarrow> string \<Rightarrow> string list" where
  "diagnostic env in_func =
     [center_240 (''Error within this block: '' @ error_text env in_func),
      dedent env in_func, hint]"

text \<open>
  The two texts written for a block that is processed without an exit and without an
  exception, as the loop body computes them.
\<close>

definition block_writes :: "collaborators \<Rightarrow> string list option \<Rightarrow> string \<times> string \<Rightarrow> string list" where
  "block_writes env whitelist_expression segment =
     (case output_code_block env whitelist_expression 0 (snd segment) empty_sink of
        Inr (block, out) \<Rightarrow> [newline # fst segment, newline # block]
      | Inl ended \<Rightarrow> [])"

section \<open>Notions used in the statements about the process teardown\<close>

text \<open>
  The polling rounds before the n-th one all found the clock below the deadline and
  the process alive: round \<open>i\<close> makes call \<open>i\<close> of \<^verbatim>\<open>time.time()\<close> and call \<open>i\<close> of
  \<^verbatim>\<open>os.kill\<close>, call 0 of each being made before the loop.
\<close>

definition polls_alive :: "os_world \<Rightarrow> real \<Rightarrow> nat \<Rightarrow> bool" where
  "polls_alive w deadline n \<longleftrightarrow>
     (\<forall>i. 1 \<le> i \<and> i < n \<longrightarrow> time_time w i < deadline \<and> os_kill w i = Signalled)"

section \<open>Notions used in the proofs about the line joiner\<close>

text \<open>
  The text in front of the opening parenthesis of a declaration header, as
  \<^verbatim>\<open>\s*def\s+\w+\s*\<close> matches it, and of a return statement, as \<^verbatim>\<open>\s*return\s*\<close> matches it.
\<close>

definition def_header :: "string \<Rightarrow> bool" where
  "def_header u \<longleftrightarrow>
     (\<exists>w w2 n w3. u = w @ ''def'' @ w2 @ n @ w3
        \<and> (\<forall>c\<in>set w. is_space c) \<and> w2 \<noteq> [] \<and> (\<forall>c\<in>set w2. is_space c)
        \<and> n \<noteq> [] \<and> (\<forall>c\<in>set n. is_word c) \<and> (\<forall>c\<in>set w3. is_space c))"

definition return_header :: "string \<Rightarrow> bool" where
  "return_header u \<longleftrightarrow>
     (\<exists>w w2. u = w @ ''return'' @ w2 \<and> (\<forall>c\<in>set w. is_space c) \<and> (\<forall>c\<in>set w2. is_space c))"

text \<open>
  Whether the position behind the text \<open>u\<close> is a line start, when the position in front
  of \<open>u\<close> is one or not according to the flag.
\<close>

definition line_start :: "bool \<Rightarrow> string \<Rightarrow> bool" where
  "line_start bol u \<longleftrightarrow> (if u = [] then bol else last u = newline)"

text \<open>Trailing whitespace removed, and the arguments as \<^verbatim>\<open>reformat_function\<close> writes them.\<close>

definition py_rstrip :: "string \<Rightarrow> string" where
  "py_rstrip s = rev (dropWhile is_space (rev s))"

definition single_line_arguments :: "string \<Rightarrow> string" where
  "single_line_arguments arguments = re_sub_comma (py_strip (remove_newlines arguments))"

text \<open>
  A text is joined with respect to the declaration headers when every header that
  \<^verbatim>\<open>function_pattern\<close> matches at one of its line starts has arguments that
  \<^verbatim>\<open>reformat_function\<close> leaves as they are, and joined with respect to the return
  statements when \<^verbatim>\<open>reformat_return\<close> leaves every match of \<^verbatim>\<open>return_pattern\<close> at one of
  its line starts as it is.
\<close>

definition headers_joined :: "bool \<Rightarrow> string \<Rightarrow> bool" where
  "headers_joined bol t \<longleftrightarrow>
     (\<forall>u v pre arguments rest.
        t = u @ v \<and> line_start bol u \<and> function_pattern_match v = Some (pre, arguments, rest)
        \<longrightarrow> single_line_arguments arguments = arguments)"

definition returns_joined :: "bool \<Rightarrow> string \<Rightarrow> bool" where
  "returns_joined bol t \<longleftrightarrow>
     (\<forall>u v return_statement rest.
        t = u @ v \<and> line_start bol u \<and> return_pattern_match v = Some (return_statement, rest)
        \<longrightarrow> reformat_return return_statement = return_statement)"

text \<open>The first closing parenthesis of a text is followed by a colon.\<close>

definition closes :: "string \<Rightarrow> bool" where
  "closes y \<longleftrightarrow> prefix ''):'' (dropWhile (\<lambda>c. c \<noteq> CHR '')'') y)"

section \<open>Example inputs\<close>

definition nested_source :: string where
  "nested_source = new_lines
     [''import m'', ''def f():'', ''    def g():'', ''        return 1'', ''    return g'', '''']"


definition nested_tree :: ast where
  "nested_tree = Other [Other [],
     FunctionDef 2 5 [Other [], FunctionDef 3 4 [Other [], Return 4 [Other []]], Return 5 [Other []]]]"

definition two_functions_source :: string where
  "two_functions_source = new_lines
     [''import m'', ''def f(a,'', ''      b):'', ''    x = 1'', ''    return (x,'', ''       a)'',
      ''def g():'', ''    y = 2'', ''    return y'', '''']"


definition two_functions_tree :: ast where
  "two_functions_tree = Other [Other [],
     FunctionDef 2 4 [Other [], Other [], Return 4 [Other []]],
     FunctionDef 5 7 [Other [], Other [], Return 7 [Other []]]]"



text \<open>
  Stand-ins for the collaborators, for the examples: a parser that returns the given
  tree; a matcher that matches a literal expression at the start of the text, and raises
  on the expression \<^verbatim>\<open>(\<close>, which is no regular expression; a dedent that removes four
  characters from every line and an indent that adds four blanks to every line; and a
  transformation that removes the blanks and raises \<^verbatim>\<open>IndentationError\<close> on a text ending
  with a colon, where a block is missing.
\<close>

definition example_env :: "ast \<Rightarrow> collaborators" where
  "example_env tree =
     \<lparr>ast_parse = (\<lambda>text. Inr tree),
      re_match = (\<lambda>expr text.
                   if expr = ''(''
                   then Inl (OtherException ''missing ), unterminated subpattern at position 0'')
                   else Inr (prefix expr text)),
      dedent = (\<lambda>text. new_lines (map (drop 4) (py_split [newline] text))),
      indent = (\<lambda>text. new_lines (map (\<lambda>l. ''    '' @ l) (py_split [newline] text))),
      mini = (\<lambda>text. if text \<noteq> [] \<and> last text = CHR '':''
                      then Inl (IndentationError ''expected an indented block'')
                      else Inr (filter (\<lambda>c. c \<noteq> CHR '' '') text))\<rparr>"

section \<open>Properties of the split\<close>

lemma py_split_acc_nonempty: "py_split_acc sep acc s \<noteq> []"
  by (induction sep acc s rule: py_split_acc.induct) auto

lemma py_split_acc_absent:
  "\<not> (\<exists>a b. s = a @ sep @ b) \<Longrightarrow> py_split_acc sep acc s = [acc @ s]"
proof (induction sep acc s rule: py_split_acc.induct)
  case (1 sep acc)
  then show ?case by simp
next
  case (2 sep acc c cs)
  have np: "\<not> prefix sep (c # cs)"
  proof
    assume "prefix sep (c # cs)"
    then obtain b where "c # cs = sep @ b" by (auto simp: prefix_def)
    then have "c # cs = [] @ sep @ b" by simp
    with 2(3) show False by blast
  qed
  have "\<not> (\<exists>a b. cs = a @ sep @ b)"
  proof
    assume "\<exists>a b. cs = a @ sep @ b"
    then obtain a b where "cs = a @ sep @ b" by blast
    then have "c # cs = (c # a) @ sep @ b" by simp
    with 2(3) show False by blast
  qed
  with 2(2) np have "py_split_acc sep (acc @ [c]) cs = [(acc @ [c]) @ cs]" by blast
  with np show ?case by simp
qed

lemma py_split_acc_last:
  assumes d: "d = x # ds" "x \<notin> set ds"
    and s: "s = a @ d @ b"
    and lst: "\<forall>a' b'. s = a' @ d @ b' \<longrightarrow> length a' \<le> length a"
  shows "last (py_split_acc d acc s) = b"
  using d s lst
proof (induction d acc s arbitrary: a rule: py_split_acc.induct)
  case (1 sep acc)
  then show ?case by simp
next
  case (2 sep acc c cs)
  note sep = 2(3,4)
  note seq = 2(5)
  note slast = 2(6)
  show ?case
  proof (cases "prefix sep (c # cs)")
    case True
    then obtain s' where s': "c # cs = sep @ s'" by (auto simp: prefix_def)
    have dr: "drop (length sep) (c # cs) = s'" using s' by simp
    have ne: "sep \<noteq> []" using sep by simp
    show ?thesis
    proof (cases "a = []")
      case True
      with seq s' have b: "b = s'" by simp
      have "\<not> (\<exists>a2 b2. s' = a2 @ sep @ b2)"
      proof
        assume "\<exists>a2 b2. s' = a2 @ sep @ b2"
        then obtain a2 b2 where "s' = a2 @ sep @ b2" by blast
        then have "c # cs = (sep @ a2) @ sep @ b2" using s' by simp
        with slast have "length (sep @ a2) \<le> length a" by blast
        with True ne show False by simp
      qed
      then have "py_split_acc sep [] s' = [[] @ s']" by (rule py_split_acc_absent)
      with \<open>prefix sep (c # cs)\<close> ne dr b show ?thesis by simp
    next
      case False
      have ge: "length sep \<le> length a"
      proof (rule ccontr)
        assume "\<not> length sep \<le> length a"
        then have lt: "length a < length sep" by simp
        from False have pos: "0 < length a" by simp
        have "(c # cs) ! length a = (a @ sep @ b) ! length a" using seq by simp
        also have "\<dots> = x" using sep by (simp add: nth_append)
        finally have e1: "(c # cs) ! length a = x" .
        have "(c # cs) ! length a = (sep @ s') ! length a" using s' by simp
        also have "\<dots> = sep ! length a" using lt by (simp add: nth_append)
        also have "\<dots> = ds ! (length a - 1)" using sep pos by (simp add: nth_Cons')
        finally have "x = ds ! (length a - 1)" using e1 by simp
        moreover have "length a - 1 < length ds" using lt sep False by (cases a) auto
        ultimately have "x \<in> set ds" by (metis nth_mem)
        with sep show False by simp
      qed
      have "sep @ s' = a @ sep @ b" using s' seq by simp
      then obtain a2 where a2: "a = sep @ a2" using ge
        by (metis append_eq_append_conv_if append_take_drop_id)
      then have s'eq: "s' = a2 @ sep @ b" using \<open>sep @ s' = a @ sep @ b\<close> by simp
      have "\<forall>a' b'. s' = a' @ sep @ b' \<longrightarrow> length a' \<le> length a2"
      proof (intro allI impI)
        fix a' b' assume "s' = a' @ sep @ b'"
        then have "c # cs = (sep @ a') @ sep @ b'" using s' by simp
        with slast have "length (sep @ a') \<le> length a" by blast
        with a2 show "length a' \<le> length a2" by simp
      qed
      with 2(1) True ne dr s'eq sep have "last (py_split_acc sep [] s') = b" by simp
      with True ne dr show ?thesis by (simp add: py_split_acc_nonempty)
    qed
  next
    case False
    have "a \<noteq> []"
    proof
      assume "a = []"
      with seq have "prefix sep (c # cs)" by (simp add: prefix_def)
      with False show False by simp
    qed
    then obtain a2 where a2: "a = c # a2" using seq by (cases a) auto
    then have cs: "cs = a2 @ sep @ b" using seq by simp
    have "\<forall>a' b'. cs = a' @ sep @ b' \<longrightarrow> length a' \<le> length a2"
    proof (intro allI impI)
      fix a' b' assume "cs = a' @ sep @ b'"
      then have "c # cs = (c # a') @ sep @ b'" by simp
      with slast have "length (c # a') \<le> length a" by blast
      with a2 show "length a' \<le> length a2" by simp
    qed
    with 2(2) False cs sep have "last (py_split_acc sep (acc @ [c]) cs) = b" by simp
    with False show ?thesis by simp
  qed
qed


section \<open>The read-only URL\<close>

text \<open>
  C10. For every input, the result is the fixed prefix followed by the text behind the
  last occurrence of \<^verbatim>\<open>#code/\<close>; when \<^verbatim>\<open>#code/\<close> does not occur, it is the prefix followed
  by the whole input.
\<close>

theorem make_marimo_url_read_only_payload:
  "(occurs_at ''#code/'' org_url a b
      \<and> (\<forall>a' b'. occurs_at ''#code/'' org_url a' b' \<longrightarrow> length a' \<le> length a)
      \<longrightarrow> make_marimo_url_read_only org_url = prefix_url @ b)
   \<and> ((\<nexists>a b. occurs_at ''#code/'' org_url a b)
      \<longrightarrow> make_marimo_url_read_only org_url = prefix_url @ org_url)"
proof (intro conjI impI)
  assume h: "occurs_at ''#code/'' org_url a b
      \<and> (\<forall>a' b'. occurs_at ''#code/'' org_url a' b' \<longrightarrow> length a' \<le> length a)"
  have "last (py_split_acc ''#code/'' [] org_url) = b"
    by (rule py_split_acc_last [where x = "CHR ''#''" and ds = "''code/''" and a = a])
       (use h in \<open>simp_all add: occurs_at_def\<close>)
  then show "make_marimo_url_read_only org_url = prefix_url @ b"
    by (simp add: make_marimo_url_read_only_def py_split_def)
next
  assume "\<nexists>a b. occurs_at ''#code/'' org_url a b"
  then have "\<not> (\<exists>a b. org_url = a @ ''#code/'' @ b)" by (simp add: occurs_at_def)
  then have "py_split_acc ''#code/'' [] org_url = [[] @ org_url]" by (rule py_split_acc_absent)
  then show "make_marimo_url_read_only org_url = prefix_url @ org_url"
    by (simp add: make_marimo_url_read_only_def py_split_def)
qed

theorem make_marimo_url_read_only_payload_witness:
  "make_marimo_url_read_only ''m.app/#code/JYWw'' = prefix_url @ ''JYWw''
   \<and> make_marimo_url_read_only ''JYWw'' = prefix_url @ ''JYWw''"
proof
  let ?s = "''m.app/#code/JYWw''"
  have occ: "occurs_at ''#code/'' ?s ''m.app/'' ''JYWw''" by (simp add: occurs_at_def)
  have lastocc: "\<forall>a' b'. occurs_at ''#code/'' ?s a' b' \<longrightarrow> length a' \<le> length ''m.app/''"
  proof (intro allI impI)
    fix a' b' assume o: "occurs_at ''#code/'' ?s a' b'"
    then have e: "?s = a' @ ''#code/'' @ b'" by (simp add: occurs_at_def)
    then have "length ?s = length (a' @ ''#code/'' @ b')" by (rule arg_cong)
    then have len: "length a' \<le> 10" by simp
    have "?s ! length a' = (a' @ ''#code/'' @ b') ! length a'" using e by simp
    then have hash: "?s ! length a' = CHR ''#''" by (simp add: nth_append)
    show "length a' \<le> length ''m.app/''"
    proof (rule ccontr)
      assume "\<not> length a' \<le> length ''m.app/''"
      then have "length a' \<in> {7, 8, 9, 10}" using len by auto
      with hash show False by auto
    qed
  qed
  from make_marimo_url_read_only_payload [of ?s "''m.app/''" "''JYWw''"] occ lastocc
  show "make_marimo_url_read_only ?s = prefix_url @ ''JYWw''" by blast
next
  have "\<nexists>a b. occurs_at ''#code/'' ''JYWw'' a b"
  proof
    assume "\<exists>a b. occurs_at ''#code/'' ''JYWw'' a b"
    then obtain a b where "''JYWw'' = a @ ''#code/'' @ b" by (auto simp: occurs_at_def)
    then have "length ''JYWw'' = length (a @ ''#code/'' @ b)" by (rule arg_cong)
    then show False by simp
  qed
  with make_marimo_url_read_only_payload [of "''JYWw''"]
  show "make_marimo_url_read_only ''JYWw'' = prefix_url @ ''JYWw''" by blast
qed

section \<open>The segmenter\<close>

lemma function_block_lines_declarations:
  "function_block_lines lines cursor nodes = function_block_lines lines cursor (declarations nodes)"
proof (induction lines cursor nodes rule: function_block_lines.induct)
  case (2 org c l e ch nodes)
  then show ?case by (simp add: declarations_def Let_def)
qed (simp_all add: declarations_def)

lemma py_slice_nonneg:
  assumes "0 \<le> i" "0 \<le> j"
  shows "py_slice xs i j = take (nat j - nat i) (drop (nat i) xs)"
proof -
  have "take (nat (min j (int (length xs)) - min i (int (length xs)))) (drop (nat (min i (int (length xs)))) xs)
        = take (nat j - nat i) (drop (nat i) xs)"
  proof (cases "i \<le> int (length xs)")
    case True
    then have lo: "min i (int (length xs)) = i" by simp
    show ?thesis
    proof (cases "j \<le> int (length xs)")
      case True
      with lo assms show ?thesis by (simp add: nat_diff_distrib')
    next
      case False
      then have "min j (int (length xs)) = int (length xs)" by simp
      moreover have "length (drop (nat i) xs) \<le> nat (int (length xs) - i)" using assms True by simp
      moreover have "length (drop (nat i) xs) \<le> nat j - nat i" using assms False by simp
      ultimately show ?thesis using lo by simp
    qed
  next
    case False
    then have "drop (nat i) xs = []" "drop (nat (min i (int (length xs)))) xs = []" by simp_all
    then show ?thesis by simp
  qed
  with assms show ?thesis by (simp add: py_slice_def Let_def)
qed

lemma line_range_take_drop:
  assumes "0 \<le> i"
  shows "line_range xs (i + 1) j = take (nat j - nat i) (drop (nat i) xs)"
proof (rule nth_equalityI)
  have m: "max 1 (i + 1) = i + 1" using assms by simp
  show len: "length (line_range xs (i + 1) j) = length (take (nat j - nat i) (drop (nat i) xs))"
    using assms by (auto simp: line_range_def m min_def)
  fix k assume k: "k < length (line_range xs (i + 1) j)"
  then have k2: "k < length (take (nat j - nat i) (drop (nat i) xs))" using len by simp
  from k have kk: "i + 1 + int k \<le> min j (int (length xs))"
    by (simp add: line_range_def m) (auto simp: min_def split: if_splits)
  then have "[i + 1 .. min j (int (length xs))] ! k = i + 1 + int k" by (rule nth_upto)
  then have "line_range xs (i + 1) j ! k = xs ! nat (i + 1 + int k - 1)"
    using k by (simp add: line_range_def m)
  moreover have "nat (i + 1 + int k - 1) = nat i + k" using assms by simp
  moreover have "take (nat j - nat i) (drop (nat i) xs) ! k = xs ! (nat i + k)"
  proof -
    from k2 have "k < length xs - nat i" by simp
    then have "nat i \<le> length xs" by arith
    then have "drop (nat i) xs ! k = xs ! (nat i + k)" by (rule nth_drop)
    with k2 show ?thesis by simp
  qed
  ultimately show "line_range xs (i + 1) j ! k = take (nat j - nat i) (drop (nat i) xs) ! k"
    by simp
qed

lemma py_slice_line_range:
  "0 \<le> i \<Longrightarrow> 0 \<le> j \<Longrightarrow> py_slice xs i j = line_range xs (i + 1) j"
  by (simp add: py_slice_nonneg line_range_take_drop)


lemma cursor_after_Cons_decl:
  "is_FunctionDef d \<Longrightarrow> cursor_after c (d # ns) = cursor_after (end_boundary d - 1) ns"
  by (simp add: cursor_after_def declarations_def split: list.splits)

lemma cursor_after_Cons_other:
  "\<not> is_FunctionDef n \<Longrightarrow> cursor_after c (n # ns) = cursor_after c ns"
  by (simp add: cursor_after_def declarations_def)

lemma end_line_of_end_boundary:
  "end_line_of (FunctionDef l e ch) e = end_boundary (FunctionDef l e ch)"
  by (simp add: end_boundary_def)

lemma function_block_lines_stop:
  "new_lines (py_slice lines (cursor_after c pre) l) = [] \<Longrightarrow>
   function_block_lines lines c (pre @ FunctionDef l e ch # post) = function_block_lines lines c pre"
proof (induction pre arbitrary: c)
  case Nil
  then show ?case by (simp add: cursor_after_def declarations_def Let_def)
next
  case (Cons n nodes)
  show ?case
  proof (cases n)
    case (FunctionDef l' e' ch')
    show ?thesis
    proof (cases "new_lines (py_slice lines c l') = []")
      case True
      then show ?thesis using FunctionDef by (simp add: Let_def)
    next
      case False
      have "cursor_after c (n # nodes) = cursor_after (end_boundary n - 1) nodes"
        using FunctionDef by (intro cursor_after_Cons_decl) simp
      with Cons.prems FunctionDef
      have "new_lines (py_slice lines (cursor_after (end_line_of (FunctionDef l' e' ch') e' - 1) nodes) l) = []"
        by (simp add: end_line_of_end_boundary)
      then have "function_block_lines lines (end_line_of (FunctionDef l' e' ch') e' - 1)
                   (nodes @ FunctionDef l e ch # post)
               = function_block_lines lines (end_line_of (FunctionDef l' e' ch') e' - 1) nodes"
        by (rule Cons.IH)
      with False FunctionDef show ?thesis by (simp add: Let_def)
    qed
  next
    case (Return l' ch')
    then have "cursor_after c (n # nodes) = cursor_after c nodes"
      by (intro cursor_after_Cons_other) simp
    with Cons Return show ?thesis by simp
  next
    case (Other ch')
    then have "cursor_after c (n # nodes) = cursor_after c nodes"
      by (intro cursor_after_Cons_other) simp
    with Cons Other show ?thesis by simp
  qed
qed

lemma length_function_block_lines:
  "length (function_block_lines lines c nodes) \<le> length (declarations nodes)"
  by (induction lines c nodes rule: function_block_lines.induct)
     (auto simp: declarations_def Let_def)

lemma yield_next_function_block_unfold:
  "yield_next_function_block parse source_code =
     map (\<lambda>(lines_before_func, func_lines). (new_lines lines_before_func, new_lines func_lines))
       (function_block_lines (normalized_lines source_code) 0 (walk (parse (line_joiner source_code))))"
  by (simp add: yield_next_function_block_def normalized_lines_def line_joiner_def Let_def)

text \<open>
  C4. When the preamble computed for a declaration is the empty string, the generator
  stops there: it yields exactly what the nodes walked before that declaration yield,
  neither a segment for that declaration nor one for any later node. In particular it
  yields nothing at all when no declaration comes before.
\<close>

theorem yield_next_function_block_stops:
  assumes "walk (parse (line_joiner source_code)) = pre @ FunctionDef lineno end_lineno children # post"
    and "new_lines (py_slice (normalized_lines source_code) (cursor_after 0 pre) lineno) = []"
  shows "yield_next_function_block parse source_code =
           map (\<lambda>(lines_before_func, func_lines). (new_lines lines_before_func, new_lines func_lines))
             (function_block_lines (normalized_lines source_code) 0 pre)
         \<and> length (yield_next_function_block parse source_code) \<le> length (declarations pre)
         \<and> (declarations pre = [] \<longrightarrow> yield_next_function_block parse source_code = [])"
proof -
  have eq: "function_block_lines (normalized_lines source_code) 0 (walk (parse (line_joiner source_code)))
          = function_block_lines (normalized_lines source_code) 0 pre"
    unfolding assms(1) using assms(2) by (rule function_block_lines_stop)
  have 1: "yield_next_function_block parse source_code =
           map (\<lambda>(lines_before_func, func_lines). (new_lines lines_before_func, new_lines func_lines))
             (function_block_lines (normalized_lines source_code) 0 pre)"
    by (simp add: yield_next_function_block_unfold eq)
  have 2: "length (yield_next_function_block parse source_code) \<le> length (declarations pre)"
    by (simp add: 1 length_function_block_lines)
  have 3: "declarations pre = [] \<longrightarrow> yield_next_function_block parse source_code = []"
    using 2 by auto
  from 1 2 3 show ?thesis by blast
qed


text \<open>
  A function nested in another one: the cursor already stands behind the inner header
  when the walk reaches it, so its preamble is empty and the generator stops.
\<close>

theorem yield_next_function_block_stops_witness:
  "yield_next_function_block (\<lambda>text. nested_tree) nested_source =
     [(new_lines [''import m'', ''def f():''], new_lines [''    def g():'', ''        return 1''])]"
proof -
  let ?pre = "[nested_tree, Other [],
     FunctionDef 2 5 [Other [], FunctionDef 3 4 [Other [], Return 4 [Other []]], Return 5 [Other []]],
     Other []]"
  have w: "walk ((\<lambda>text. nested_tree) (line_joiner nested_source)) =
      ?pre @ FunctionDef 3 4 [Other [], Return 4 [Other []]] # [Return 5 [Other []], Other [], Return 4 [Other []], Other [], Other []]"
    by code_simp
  have e: "new_lines (py_slice (normalized_lines nested_source) (cursor_after 0 ?pre) 3) = []"
    by code_simp
  have v: "map (\<lambda>(lines_before_func, func_lines). (new_lines lines_before_func, new_lines func_lines))
             (function_block_lines (normalized_lines nested_source) 0 ?pre)
        = [(new_lines [''import m'', ''def f():''], new_lines [''    def g():'', ''        return 1''])]"
    by code_simp
  from yield_next_function_block_stops [OF w e] v show ?thesis by simp
qed


lemma max_return_line_Max:
  "max_return_line e ns = Max (insert e (set (return_lines ns)))"
proof (induction e ns rule: max_return_line.induct)
  case (1 e)
  then show ?case by simp
next
  case (2 e l ch ns)
  have "Max (insert e (insert l (set (return_lines ns)))) = Max (insert (max e l) (set (return_lines ns)))"
  proof (cases "set (return_lines ns) = {}")
    case True
    then show ?thesis by (simp add: max.commute)
  next
    case False
    then show ?thesis by (simp add: max.assoc max.commute max.left_commute)
  qed
  with 2 show ?case by (simp add: insert_commute)
qed simp_all

lemma end_boundary_returns:
  assumes "\<forall>l\<in>set (return_lines (walk d)). 1 \<le> l"
  shows "end_boundary d =
     (if return_lines (walk d) = [] then last_line d else Max (set (return_lines (walk d))))"
proof (cases "return_lines (walk d) = []")
  case True
  then show ?thesis by (simp add: end_boundary_def end_line_of_def max_return_line_Max)
next
  case False
  let ?S = "set (return_lines (walk d))"
  from False have ne: "?S \<noteq> {}" by simp
  then have m: "Max (insert 0 ?S) = max 0 (Max ?S)" by simp
  from ne have "Max ?S \<in> ?S" by simp
  with assms have "1 \<le> Max ?S" by blast
  with m have "Max (insert 0 ?S) = Max ?S" "Max (insert 0 ?S) \<noteq> 0" by simp_all
  with False show ?thesis by (simp add: end_boundary_def end_line_of_def max_return_line_Max)
qed

lemma function_block_lines_nth:
  assumes "\<forall>d\<in>set ds. is_FunctionDef d \<and> 1 \<le> start_line d \<and> 1 \<le> end_boundary d"
    and "0 \<le> c" and "i < length (function_block_lines lines c ds)"
  shows "function_block_lines lines c ds ! i =
     (line_range lines ((if i = 0 then c else end_boundary (ds ! (i - 1)) - 1) + 1) (start_line (ds ! i)),
      line_range lines (start_line (ds ! i) + 1) (end_boundary (ds ! i) - 1))"
  using assms
proof (induction ds arbitrary: c i)
  case Nil
  then show ?case by simp
next
  case (Cons d ds)
  from Cons.prems(1) obtain l e ch where d: "d = FunctionDef l e ch"
    by (cases d) auto
  from Cons.prems(1) d have l: "1 \<le> l" and eb: "1 \<le> end_boundary d" by auto
  let ?c' = "end_boundary d - 1"
  have el: "end_line_of (FunctionDef l e ch) e = end_boundary d" using d by (simp add: end_boundary_def)
  from Cons.prems(3) d have ne: "new_lines (py_slice lines c l) \<noteq> []"
    by (auto simp: Let_def split: if_splits)
  then have unf: "function_block_lines lines c (d # ds) =
      (py_slice lines c l, py_slice lines l ?c') # function_block_lines lines ?c' ds"
    using d el by (simp add: Let_def)
  show ?case
  proof (cases i)
    case 0
    have "py_slice lines c l = line_range lines (c + 1) l"
      using Cons.prems(2) l by (intro py_slice_line_range) simp_all
    moreover have "py_slice lines l ?c' = line_range lines (l + 1) ?c'"
      using l eb by (intro py_slice_line_range) simp_all
    ultimately show ?thesis using 0 unf d by simp
  next
    case (Suc j)
    with Cons.prems(3) unf have j: "j < length (function_block_lines lines ?c' ds)" by simp
    have "function_block_lines lines ?c' ds ! j =
     (line_range lines ((if j = 0 then ?c' else end_boundary (ds ! (j - 1)) - 1) + 1) (start_line (ds ! j)),
      line_range lines (start_line (ds ! j) + 1) (end_boundary (ds ! j) - 1))"
      using Cons.prems(1) eb j by (intro Cons.IH) simp_all
    moreover have "(d # ds) ! (Suc j - 1) = (if j = 0 then d else ds ! (j - 1))"
      by (cases j) simp_all
    ultimately show ?thesis using Suc unf by (cases j) simp_all
  qed
qed

lemma declarations_is_FunctionDef: "d \<in> set (declarations nodes) \<Longrightarrow> is_FunctionDef d"
  by (simp add: declarations_def)

lemma declarations_idem: "declarations (declarations nodes) = declarations nodes"
  by (simp add: declarations_def)

text \<open>
  C3, as the code has it. With line numbers counted from 1, the i-th segment yielded
  belongs to the i-th declaration of the walk. Its preamble is the lines from the end
  boundary line of the declaration before it, that line included, through its own header
  line (from line 1 for the first declaration). Its body is the lines from the one behind
  the header through the one before its end boundary. The end boundary is the largest
  line number of a return statement nested in the declaration, or the last line of the
  declaration when it has none.
\<close>

theorem segment_boundaries:
  assumes "\<forall>d\<in>set (walked_declarations parse source_code).
             1 \<le> start_line d \<and> 1 \<le> last_line d \<and> (\<forall>l\<in>set (return_lines (walk d)). 1 \<le> l)"
    and "i < length (yield_next_function_block parse source_code)"
  shows "yield_next_function_block parse source_code ! i =
           (new_lines (line_range (normalized_lines source_code)
              (if i = 0 then 1 else end_boundary (walked_declarations parse source_code ! (i - 1)))
              (start_line (walked_declarations parse source_code ! i))),
            new_lines (line_range (normalized_lines source_code)
              (start_line (walked_declarations parse source_code ! i) + 1)
              (end_boundary (walked_declarations parse source_code ! i) - 1)))
         \<and> end_boundary (walked_declarations parse source_code ! i) =
             (if return_lines (walk (walked_declarations parse source_code ! i)) = []
              then last_line (walked_declarations parse source_code ! i)
              else Max (set (return_lines (walk (walked_declarations parse source_code ! i)))))"
proof -
  let ?ds = "walked_declarations parse source_code"
  let ?lines = "normalized_lines source_code"
  let ?segs = "function_block_lines ?lines 0 ?ds"
  have segs: "function_block_lines ?lines 0 (walk (parse (line_joiner source_code))) = ?segs"
    unfolding walked_declarations_def by (rule function_block_lines_declarations)
  have y: "yield_next_function_block parse source_code =
      map (\<lambda>(lines_before_func, func_lines). (new_lines lines_before_func, new_lines func_lines)) ?segs"
    by (simp add: yield_next_function_block_unfold segs)
  with assms(2) have i: "i < length ?segs" by simp
  have "length ?segs \<le> length (declarations ?ds)" by (rule length_function_block_lines)
  then have "length ?segs \<le> length ?ds" by (simp add: walked_declarations_def declarations_idem)
  with i have ids: "i < length ?ds" by simp
  have eb: "\<forall>d\<in>set ?ds. end_boundary d =
     (if return_lines (walk d) = [] then last_line d else Max (set (return_lines (walk d))))"
  proof
    fix d assume "d \<in> set ?ds"
    with assms(1) have "\<forall>l\<in>set (return_lines (walk d)). 1 \<le> l" by blast
    then show "end_boundary d =
     (if return_lines (walk d) = [] then last_line d else Max (set (return_lines (walk d))))"
      by (rule end_boundary_returns)
  qed
  have pos: "\<forall>d\<in>set ?ds. is_FunctionDef d \<and> 1 \<le> start_line d \<and> 1 \<le> end_boundary d"
  proof
    fix d assume d: "d \<in> set ?ds"
    then have f: "is_FunctionDef d" unfolding walked_declarations_def by (rule declarations_is_FunctionDef)
    from d assms(1) have s: "1 \<le> start_line d" and ll: "1 \<le> last_line d"
      and r: "\<forall>l\<in>set (return_lines (walk d)). 1 \<le> l" by auto
    have "1 \<le> end_boundary d"
    proof (cases "return_lines (walk d) = []")
      case True
      with eb d ll show ?thesis by simp
    next
      case False
      then have "Max (set (return_lines (walk d))) \<in> set (return_lines (walk d))" by simp
      with r have "1 \<le> Max (set (return_lines (walk d)))" by blast
      with eb d False show ?thesis by simp
    qed
    with f s show "is_FunctionDef d \<and> 1 \<le> start_line d \<and> 1 \<le> end_boundary d" by simp
  qed
  have "?segs ! i =
     (line_range ?lines ((if i = 0 then 0 else end_boundary (?ds ! (i - 1)) - 1) + 1) (start_line (?ds ! i)),
      line_range ?lines (start_line (?ds ! i) + 1) (end_boundary (?ds ! i) - 1))"
    using pos i by (intro function_block_lines_nth) simp_all
  then have 1: "yield_next_function_block parse source_code ! i =
           (new_lines (line_range ?lines (if i = 0 then 1 else end_boundary (?ds ! (i - 1))) (start_line (?ds ! i))),
            new_lines (line_range ?lines (start_line (?ds ! i) + 1) (end_boundary (?ds ! i) - 1)))"
    using i by (simp add: y)
  from ids have "?ds ! i \<in> set ?ds" by simp
  with eb have 2: "end_boundary (?ds ! i) =
             (if return_lines (walk (?ds ! i)) = [] then last_line (?ds ! i)
              else Max (set (return_lines (walk (?ds ! i)))))" by blast
  from 1 2 show ?thesis by blast
qed


lemma py_join_last_nonempty:
  "xs \<noteq> [] \<Longrightarrow> last xs \<noteq> [] \<Longrightarrow> py_join sep xs \<noteq> []"
  by (induction sep xs rule: py_join.induct) auto

lemma py_join_split_acc:
  "py_join [c] (py_split_acc [c] acc s) = acc @ s"
proof (induction "[c]" acc s rule: py_split_acc.induct)
  case (1 acc)
  then show ?case by simp
next
  case (2 acc x xs)
  show ?case
  proof (cases "x = c")
    case True
    then have "py_split_acc [c] acc (x # xs) = acc # py_split_acc [c] [] xs" by simp
    moreover obtain y ys where "py_split_acc [c] [] xs = y # ys"
      using py_split_acc_nonempty [of "[c]" "[]" xs] by (cases "py_split_acc [c] [] xs") auto
    moreover have "py_join [c] (py_split_acc [c] [] xs) = [] @ xs"
      using 2(1) True by simp
    ultimately show ?thesis using True by simp
  next
    case False
    then show ?thesis using 2(2) by simp
  qed
qed

lemma new_lines_split: "new_lines (py_split [newline] s) = s"
  by (simp add: new_lines_def py_split_def py_join_split_acc)

lemma in_file_order_cursor:
  "in_file_order lines c ds \<Longrightarrow> \<forall>d\<in>set ds. is_FunctionDef d \<Longrightarrow> 0 \<le> c \<Longrightarrow>
   c \<le> cursor_after c ds \<and> cursor_after c ds \<le> int (length lines) \<or> ds = []"
proof (induction ds arbitrary: c)
  case Nil
  then show ?case by simp
next
  case (Cons d ds)
  from Cons.prems have f: "is_FunctionDef d" and o: "in_file_order lines (end_boundary d - 1) ds"
    and b: "c < start_line d" "start_line d < end_boundary d" "end_boundary d - 1 \<le> int (length lines)"
    by auto
  have ca: "cursor_after c (d # ds) = cursor_after (end_boundary d - 1) ds"
    using f by (rule cursor_after_Cons_decl)
  show ?case
  proof (cases "ds = []")
    case True
    then show ?thesis using ca b by (simp add: cursor_after_def declarations_def)
  next
    case False
    with Cons.IH [OF o] Cons.prems(2,3) b
    have "end_boundary d - 1 \<le> cursor_after (end_boundary d - 1) ds
        \<and> cursor_after (end_boundary d - 1) ds \<le> int (length lines)" by auto
    with ca b show ?thesis by simp
  qed
qed

lemma function_block_lines_cover:
  assumes "in_file_order lines c ds" and "\<forall>d\<in>set ds. is_FunctionDef d"
  shows "length (function_block_lines lines c ds) = length ds
       \<and> concat (map (\<lambda>(p, b). p @ b) (function_block_lines lines c ds))
           = take (nat (cursor_after c ds) - nat c) (drop (nat c) lines)"
  using assms
proof (induction ds arbitrary: c)
  case Nil
  then show ?case by (simp add: cursor_after_def declarations_def)
next
  case (Cons d ds)
  from Cons.prems obtain l e ch where d: "d = FunctionDef l e ch" by (cases d) auto
  let ?c' = "end_boundary d - 1"
  from Cons.prems d have c0: "0 \<le> c" and cl: "c < l" and le: "l < end_boundary d"
    and en: "?c' \<le> int (length lines)" and hd: "lines ! nat (l - 1) \<noteq> []"
    and o: "in_file_order lines ?c' ds" and fs: "\<forall>d\<in>set ds. is_FunctionDef d"
    by auto
  have el: "end_line_of (FunctionDef l e ch) e = end_boundary d" using d by (simp add: end_boundary_def)
  have pre: "py_slice lines c l = take (nat l - nat c) (drop (nat c) lines)"
    using c0 cl by (intro py_slice_nonneg) simp_all
  have body: "py_slice lines l ?c' = take (nat ?c' - nat l) (drop (nat l) lines)"
    using c0 cl le by (intro py_slice_nonneg) simp_all
  have llen: "nat l \<le> length lines" using en le c0 cl by simp
  have "py_slice lines c l \<noteq> [] \<and> last (py_slice lines c l) = lines ! nat (l - 1)"
  proof -
    have len: "length (py_slice lines c l) = nat l - nat c" using pre llen by simp
    then have ne: "py_slice lines c l \<noteq> []" using c0 cl by auto
    have "last (py_slice lines c l) = py_slice lines c l ! (nat l - nat c - 1)"
      using ne len by (simp add: last_conv_nth)
    also have "\<dots> = drop (nat c) lines ! (nat l - nat c - 1)"
      using c0 cl by (simp add: pre)
    also have "\<dots> = lines ! (nat c + (nat l - nat c - 1))"
      using llen c0 cl by (intro nth_drop) simp
    also have "nat c + (nat l - nat c - 1) = nat (l - 1)" using c0 cl by simp
    finally show ?thesis using ne by simp
  qed
  with hd have "new_lines (py_slice lines c l) \<noteq> []"
    by (simp add: new_lines_def py_join_last_nonempty)
  then have unf: "function_block_lines lines c (d # ds) =
      (py_slice lines c l, py_slice lines l ?c') # function_block_lines lines ?c' ds"
    using d el by (simp add: Let_def)
  from Cons.IH [OF o fs]
  have ih: "length (function_block_lines lines ?c' ds) = length ds"
    "concat (map (\<lambda>(p, b). p @ b) (function_block_lines lines ?c' ds))
           = take (nat (cursor_after ?c' ds) - nat ?c') (drop (nat ?c') lines)" by simp_all
  have ca: "cursor_after c (d # ds) = cursor_after ?c' ds"
    using d by (intro cursor_after_Cons_decl) simp
  have mono: "?c' \<le> cursor_after ?c' ds"
  proof (cases "ds = []")
    case True
    then show ?thesis by (simp add: cursor_after_def declarations_def)
  next
    case False
    with in_file_order_cursor [OF o fs] c0 cl le show ?thesis by auto
  qed
  have seg: "py_slice lines c l @ py_slice lines l ?c' = take (nat ?c' - nat c) (drop (nat c) lines)"
  proof -
    have "nat ?c' - nat c = (nat l - nat c) + (nat ?c' - nat l)" using c0 cl le by simp
    then have "take (nat ?c' - nat c) (drop (nat c) lines)
        = take (nat l - nat c) (drop (nat c) lines)
          @ take (nat ?c' - nat l) (drop (nat l - nat c) (drop (nat c) lines))"
      by (simp add: take_add)
    moreover have "nat l - nat c + nat c = nat l" using c0 cl by simp
    ultimately show ?thesis by (simp add: pre body)
  qed
  have "take (nat ?c' - nat c) (drop (nat c) lines)
        @ take (nat (cursor_after ?c' ds) - nat ?c') (drop (nat ?c') lines)
      = take (nat (cursor_after ?c' ds) - nat c) (drop (nat c) lines)"
  proof -
    have "nat (cursor_after ?c' ds) - nat c = (nat ?c' - nat c) + (nat (cursor_after ?c' ds) - nat ?c')"
      using c0 cl le mono by simp
    then have "take (nat (cursor_after ?c' ds) - nat c) (drop (nat c) lines)
        = take (nat ?c' - nat c) (drop (nat c) lines)
          @ take (nat (cursor_after ?c' ds) - nat ?c') (drop (nat ?c' - nat c) (drop (nat c) lines))"
      by (simp add: take_add)
    moreover have "nat ?c' - nat c + nat c = nat ?c'" using c0 cl le by simp
    ultimately show ?thesis by simp
  qed
  with seg ih unf ca show ?case by simp
qed

text \<open>
  C1, as the code has it. For declarations in file order, one below the other, every
  declaration yields a segment, and the lines of all preambles and bodies, concatenated
  in the order of emission, are the lines of the normalized text before the end boundary
  line of the last declaration: the segments are contiguous, do not overlap and are in
  file order, and that boundary line and the lines behind it are in no segment. The
  lines joined by newlines are the normalized text.
\<close>

theorem segments_cover_prefix:
  assumes "in_file_order (normalized_lines source_code) 0 (walked_declarations parse source_code)"
  shows "length (yield_next_function_block parse source_code)
           = length (walked_declarations parse source_code)
       \<and> yield_next_function_block parse source_code =
           map (\<lambda>(lines_before_func, func_lines). (new_lines lines_before_func, new_lines func_lines))
             (function_block_lines (normalized_lines source_code) 0 (walk (parse (line_joiner source_code))))
       \<and> concat (map (\<lambda>(lines_before_func, func_lines). lines_before_func @ func_lines)
             (function_block_lines (normalized_lines source_code) 0 (walk (parse (line_joiner source_code)))))
           = take (nat (cursor_after 0 (walk (parse (line_joiner source_code)))))
               (normalized_lines source_code)
       \<and> new_lines (normalized_lines source_code) = line_joiner source_code"
proof -
  let ?ds = "walked_declarations parse source_code"
  let ?lines = "normalized_lines source_code"
  let ?nodes = "walk (parse (line_joiner source_code))"
  have segs: "function_block_lines ?lines 0 ?nodes = function_block_lines ?lines 0 ?ds"
    unfolding walked_declarations_def by (rule function_block_lines_declarations)
  have fs: "\<forall>d\<in>set ?ds. is_FunctionDef d"
    unfolding walked_declarations_def by (auto dest: declarations_is_FunctionDef)
  have ca: "cursor_after 0 ?ds = cursor_after 0 ?nodes"
    by (simp add: cursor_after_def walked_declarations_def declarations_idem)
  from function_block_lines_cover [OF assms fs]
  have "length (function_block_lines ?lines 0 ?ds) = length ?ds"
    and "concat (map (\<lambda>(p, b). p @ b) (function_block_lines ?lines 0 ?ds))
           = take (nat (cursor_after 0 ?ds)) ?lines" by simp_all
  then have 1: "length (function_block_lines ?lines 0 ?nodes) = length ?ds"
    and 3: "concat (map (\<lambda>(p, b). p @ b) (function_block_lines ?lines 0 ?nodes))
           = take (nat (cursor_after 0 ?nodes)) ?lines"
    unfolding segs ca by simp_all
  have 2: "yield_next_function_block parse source_code =
           map (\<lambda>(lines_before_func, func_lines). (new_lines lines_before_func, new_lines func_lines))
             (function_block_lines ?lines 0 ?nodes)"
    by (rule yield_next_function_block_unfold)
  have 0: "length (yield_next_function_block parse source_code) = length ?ds"
    unfolding 2 using 1 by simp
  have 4: "new_lines ?lines = line_joiner source_code"
    by (simp add: normalized_lines_def new_lines_split)
  from 0 2 3 4 show ?thesis by blast
qed


lemma two_functions_normalized:
  "normalized_lines two_functions_source =
     [''import m'', ''def f(a, b):'', ''    x = 1'', ''    return (x, a)'',
      ''def g():'', ''    y = 2'', ''    return y'', '''']"
  by code_simp

lemma two_functions_declarations:
  "walked_declarations (\<lambda>text. two_functions_tree) two_functions_source =
     [FunctionDef 2 4 [Other [], Other [], Return 4 [Other []]],
      FunctionDef 5 7 [Other [], Other [], Return 7 [Other []]]]"
  by code_simp

text \<open>
  Two declarations, the first with a header and a return statement over two lines each.
\<close>

theorem segments_cover_prefix_witness:
  "concat (map (\<lambda>(lines_before_func, func_lines). lines_before_func @ func_lines)
     (function_block_lines (normalized_lines two_functions_source) 0
        (walk two_functions_tree)))
   = [''import m'', ''def f(a, b):'', ''    x = 1'', ''    return (x, a)'', ''def g():'', ''    y = 2'']
   \<and> length (yield_next_function_block (\<lambda>text. two_functions_tree) two_functions_source) = 2"
proof -
  have o: "in_file_order (normalized_lines two_functions_source) 0
             (walked_declarations (\<lambda>text. two_functions_tree) two_functions_source)"
    unfolding two_functions_normalized two_functions_declarations by code_simp
  have t: "take (nat (cursor_after 0 (walk two_functions_tree))) (normalized_lines two_functions_source)
      = [''import m'', ''def f(a, b):'', ''    x = 1'', ''    return (x, a)'', ''def g():'', ''    y = 2'']"
    unfolding two_functions_normalized by code_simp
  note c = segments_cover_prefix [OF o, unfolded two_functions_declarations]
  from c have "length (yield_next_function_block (\<lambda>text. two_functions_tree) two_functions_source)
      = length [FunctionDef 2 4 [Other [], Other [], Return 4 [Other []]],
                FunctionDef 5 7 [Other [], Other [], Return 7 [Other []]]]" by blast
  then have l: "length (yield_next_function_block (\<lambda>text. two_functions_tree) two_functions_source) = 2"
    by simp
  from c have "concat (map (\<lambda>(lines_before_func, func_lines). lines_before_func @ func_lines)
     (function_block_lines (normalized_lines two_functions_source) 0 (walk two_functions_tree)))
     = take (nat (cursor_after 0 (walk two_functions_tree))) (normalized_lines two_functions_source)"
    by blast
  with t l show ?thesis by (simp only:) 
qed

text \<open>
  The claim as stated fails on the same input: neither the plain concatenation of the
  preambles and bodies nor their concatenation with newlines between them is the
  normalized text, which goes on with the last return statement.
\<close>

theorem segments_concatenation_counterexample:
  "concat (map (\<lambda>(preamble, body). preamble @ body)
     (yield_next_function_block (\<lambda>text. two_functions_tree) two_functions_source))
   \<noteq> line_joiner two_functions_source
   \<and> new_lines (concat (map (\<lambda>(preamble, body). [preamble, body])
     (yield_next_function_block (\<lambda>text. two_functions_tree) two_functions_source)))
   \<noteq> line_joiner two_functions_source"
  by code_simp

text \<open>
  The second segment of the example: its preamble starts with the return statement that
  ends the first declaration.
\<close>

theorem segment_boundaries_witness:
  "yield_next_function_block (\<lambda>text. two_functions_tree) two_functions_source ! 1 =
     (new_lines [''    return (x, a)'', ''def g():''], new_lines [''    y = 2''])"
proof -
  let ?p = "\<lambda>text. two_functions_tree"
  have h: "\<forall>d\<in>set (walked_declarations ?p two_functions_source).
             1 \<le> start_line d \<and> 1 \<le> last_line d \<and> (\<forall>l\<in>set (return_lines (walk d)). 1 \<le> l)"
    unfolding two_functions_declarations by code_simp
  have i: "1 < length (yield_next_function_block ?p two_functions_source)"
    by code_simp
  have v: "(new_lines (line_range (normalized_lines two_functions_source)
              (end_boundary (walked_declarations ?p two_functions_source ! 0))
              (start_line (walked_declarations ?p two_functions_source ! 1))),
            new_lines (line_range (normalized_lines two_functions_source)
              (start_line (walked_declarations ?p two_functions_source ! 1) + 1)
              (end_boundary (walked_declarations ?p two_functions_source ! 1) - 1)))
      = (new_lines [''    return (x, a)'', ''def g():''], new_lines [''    y = 2''])"
    unfolding two_functions_normalized two_functions_declarations by code_simp
  from segment_boundaries [OF h i] v show ?thesis by simp
qed

text \<open>
  The claim as stated, with the end boundary line of the declaration before left out of
  the preamble, fails for the second segment of the example.
\<close>

theorem segment_preamble_counterexample:
  "fst (yield_next_function_block (\<lambda>text. two_functions_tree) two_functions_source ! 1)
     = new_lines [''    return (x, a)'', ''def g():'']
   \<and> new_lines (line_range (normalized_lines two_functions_source)
        (end_boundary (walked_declarations (\<lambda>text. two_functions_tree) two_functions_source ! 0) + 1)
        (start_line (walked_declarations (\<lambda>text. two_functions_tree) two_functions_source ! 1)))
     = ''def g():''"
  by code_simp

section \<open>The whitelist and the writer\<close>

lemma output_code_block_Inr:
  assumes "output_code_block env wl c in_func out = Inr (block, out')"
  shows "written out' = written out \<and> printed out' = printed out
       \<and> block_passes env wl in_func
       \<and> block_writes env wl (before_func, in_func) = [newline # before_func, newline # block]"
  using assms
  by (auto simp: output_code_block_def block_passes_def block_writes_def Let_def
           split: option.splits sum.splits raised.splits)

lemma output_code_block_Inl:
  assumes "output_code_block env wl c in_func out = Inl (ended, out')"
  shows "ended \<noteq> Returned \<and> \<not> block_passes env wl in_func"
  using assms
  by (auto simp: output_code_block_def block_passes_def Let_def
           split: option.splits sum.splits raised.splits)

lemma output_code_block_passes:
  assumes "block_passes env wl in_func"
  shows "\<exists>block out'. output_code_block env wl c in_func out = Inr (block, out')"
  using assms
  by (auto simp: output_code_block_def block_passes_def Let_def
           split: option.splits sum.splits raised.splits)


lemma write_blocks_step:
  assumes "block_passes env wl f"
  shows "\<exists>block o1. written o1 = written out \<and> printed o1 = printed out
       \<and> block_writes env wl (b, f) = [newline # b, newline # block]
       \<and> write_blocks env wl c ((b, f) # blocks) out
           = write_blocks env wl (c + 1) blocks
               (o1\<lparr>written := written o1 @ [newline # b, newline # block]\<rparr>)"
proof -
  from output_code_block_passes [OF assms] obtain block o1
    where o1: "output_code_block env wl (c + 1) f out = Inr (block, o1)" by blast
  from output_code_block_Inr [OF o1, of b]
  have "written o1 = written out" "printed o1 = printed out"
      "block_writes env wl (b, f) = [newline # b, newline # block]" by simp_all
  moreover have "write_blocks env wl c ((b, f) # blocks) out
      = write_blocks env wl (c + 1) blocks (o1\<lparr>written := written o1 @ [newline # b, newline # block]\<rparr>)"
    using o1 by simp
  ultimately show ?thesis by blast
qed


lemma write_blocks_passes:
  assumes "\<forall>(b, f)\<in>set blocks. block_passes env wl f"
  shows "fst (write_blocks env wl c blocks out) = Returned
       \<and> written (snd (write_blocks env wl c blocks out))
           = written out @ concat (map (block_writes env wl) blocks)
       \<and> printed (snd (write_blocks env wl c blocks out)) = printed out"
  using assms
proof (induction blocks arbitrary: c out)
  case Nil
  show ?case by simp
next
  case (Cons seg blocks)
  obtain b f where seg: "seg = (b, f)" by (cases seg)
  with Cons.prems have nr: "block_passes env wl f"
    and rest: "\<forall>(b, f)\<in>set blocks. block_passes env wl f" by simp_all
  from write_blocks_step [OF nr, of out b c blocks]
  obtain block o1 where p: "written o1 = written out" "printed o1 = printed out"
      "block_writes env wl (b, f) = [newline # b, newline # block]"
    and step: "write_blocks env wl c ((b, f) # blocks) out
      = write_blocks env wl (c + 1) blocks (o1\<lparr>written := written o1 @ [newline # b, newline # block]\<rparr>)"
    by blast
  from Cons.IH [OF rest, of "c + 1" "o1\<lparr>written := written o1 @ [newline # b, newline # block]\<rparr>"] p
  show ?case unfolding seg step by simp
qed

lemma write_blocks_Returned:
  assumes "fst (write_blocks env wl c blocks out) = Returned"
  shows "\<forall>(b, f)\<in>set blocks. block_passes env wl f"
  using assms
proof (induction blocks arbitrary: c out)
  case Nil
  show ?case by simp
next
  case (Cons seg blocks)
  obtain b f where seg: "seg = (b, f)" by (cases seg)
  show ?case
  proof (cases "output_code_block env wl (c + 1) f out")
    case (Inl x)
    obtain ended o1 where x: "x = (ended, o1)" by (cases x)
    from output_code_block_Inl [of env wl "c + 1" f out ended o1] Inl x
    have "ended \<noteq> Returned" by simp
    moreover from Cons.prems seg Inl x have "ended = Returned" by simp
    ultimately show ?thesis by simp
  next
    case (Inr y)
    obtain block o1 where y: "y = (block, o1)" by (cases y)
    from output_code_block_Inr [of env wl "c + 1" f out block o1 b] Inr y
    have pass: "block_passes env wl f" by simp
    from Cons.prems seg Inr y
    have "fst (write_blocks env wl (c + 1) blocks
                 (o1\<lparr>written := written o1 @ [newline # b, newline # block]\<rparr>)) = Returned"
      by simp
    from Cons.IH [OF this] pass seg show ?thesis by simp
  qed
qed

lemma block_writes_newline:
  "w \<in> set (block_writes env wl seg) \<Longrightarrow> \<exists>x. w = newline # x"
  by (auto simp: block_writes_def split: sum.splits)

lemma trailer_not_block_write: "trailer \<notin> set (concat (map (block_writes env wl) blocks))"
proof
  assume "trailer \<in> set (concat (map (block_writes env wl) blocks))"
  then obtain seg where "trailer \<in> set (block_writes env wl seg)" by auto
  then obtain x where "trailer = newline # x" by (auto dest: block_writes_newline)
  then show False by (simp add: trailer_def newline_def)
qed

lemma st_size_nonneg: "0 \<le> st_size s"
  by (induction s) simp_all

lemma st_size_eq_0: "st_size s = 0 \<longleftrightarrow> s = []"
proof (cases s)
  case Nil
  then show ?thesis by simp
next
  case (Cons c cs)
  with st_size_nonneg [of cs] show ?thesis by simp
qed

lemma minify_to_file_parse_raises:
  assumes "ast_parse env (line_joiner source_code) = Inl e"
  shows "minify_to_file env source_code wl = (Raised e, empty_sink)"
  using assms by (simp add: minify_to_file_def)

lemma minify_to_file_Returned:
  assumes "ast_parse env (line_joiner source_code) = Inr tree"
    and "fst (write_blocks env wl 0 (yield_next_function_block (\<lambda>text. tree) source_code) empty_sink) = Returned"
    and "source_code \<noteq> []"
  shows "fst (minify_to_file env source_code wl) = Returned"
    and "written (snd (minify_to_file env source_code wl))
       = written (snd (write_blocks env wl 0 (yield_next_function_block (\<lambda>text. tree) source_code) empty_sink)) @ [trailer]"
    and "printed (snd (minify_to_file env source_code wl))
       = printed (snd (write_blocks env wl 0 (yield_next_function_block (\<lambda>text. tree) source_code) empty_sink))"
  using assms
  by (cases "write_blocks env wl 0 (yield_next_function_block (\<lambda>text. tree) source_code) empty_sink";
      simp add: minify_to_file_def st_size_eq_0)+

lemma minify_to_file_ended:
  assumes "ast_parse env (line_joiner source_code) = Inr tree"
    and "fst (write_blocks env wl 0 (yield_next_function_block (\<lambda>text. tree) source_code) empty_sink) \<noteq> Returned"
  shows "minify_to_file env source_code wl
       = write_blocks env wl 0 (yield_next_function_block (\<lambda>text. tree) source_code) empty_sink"
proof (cases "write_blocks env wl 0 (yield_next_function_block (\<lambda>text. tree) source_code) empty_sink")
  case (Pair ended out)
  with assms show ?thesis by (cases ended) (simp_all add: minify_to_file_def)
qed

lemma minify_to_file_Returned_parsed:
  assumes "fst (minify_to_file env source_code wl) = Returned"
  shows "\<exists>tree. ast_parse env (line_joiner source_code) = Inr tree
       \<and> source_code \<noteq> []
       \<and> fst (write_blocks env wl 0 (yield_next_function_block (\<lambda>text. tree) source_code) empty_sink) = Returned"
proof (cases "ast_parse env (line_joiner source_code)")
  case (Inl e)
  from minify_to_file_parse_raises [OF Inl, of wl] assms show ?thesis by simp
next
  case (Inr tree)
  let ?w = "write_blocks env wl 0 (yield_next_function_block (\<lambda>text. tree) source_code) empty_sink"
  have w: "fst ?w = Returned"
  proof (rule ccontr)
    assume n: "fst ?w \<noteq> Returned"
    from minify_to_file_ended [OF Inr n] assms n show False by simp
  qed
  have "source_code \<noteq> []"
  proof
    assume "source_code = []"
    with Inr w assms show False
      by (cases ?w) (simp add: minify_to_file_def)
  qed
  with Inr w show ?thesis by blast
qed

text \<open>
  C7. When the run completes, the texts written are the two texts of every block, in
  order, followed by the trailer: the trailer is the last text written, it is written
  exactly once, and the content of the file ends with it, whatever the number of blocks.
\<close>

theorem trailer_written_once:
  assumes "fst (minify_to_file env source_code whitelist_expression) = Returned"
  shows "(\<exists>tree. ast_parse env (line_joiner source_code) = Inr tree
           \<and> written (snd (minify_to_file env source_code whitelist_expression))
               = concat (map (block_writes env whitelist_expression)
                   (yield_next_function_block (\<lambda>text. tree) source_code)) @ [trailer])
       \<and> last (written (snd (minify_to_file env source_code whitelist_expression))) = trailer
       \<and> count_list (written (snd (minify_to_file env source_code whitelist_expression))) trailer = 1
       \<and> suffix trailer (file_content (snd (minify_to_file env source_code whitelist_expression)))"
proof -
  from minify_to_file_Returned_parsed [OF assms] obtain tree
    where tree: "ast_parse env (line_joiner source_code) = Inr tree"
      and ne: "source_code \<noteq> []"
      and ret: "fst (write_blocks env whitelist_expression 0
                  (yield_next_function_block (\<lambda>text. tree) source_code) empty_sink) = Returned"
    by blast
  let ?blocks = "yield_next_function_block (\<lambda>text. tree) source_code"
  let ?r = "minify_to_file env source_code whitelist_expression"
  let ?w = "write_blocks env whitelist_expression 0 ?blocks empty_sink"
  from write_blocks_Returned [OF ret]
  have nr: "\<forall>(b, f)\<in>set ?blocks. block_passes env whitelist_expression f" .
  from write_blocks_passes [OF nr, of 0 empty_sink]
  have w: "written (snd ?w) = concat (map (block_writes env whitelist_expression) ?blocks)"
    by (simp add: empty_sink_def)
  from minify_to_file_Returned(2) [OF tree ret ne] w
  have 1: "written (snd ?r) = concat (map (block_writes env whitelist_expression) ?blocks) @ [trailer]"
    by simp
  have 2: "last (written (snd ?r)) = trailer" by (simp add: 1)
  have "count_list (concat (map (block_writes env whitelist_expression) ?blocks)) trailer = 0"
    using trailer_not_block_write [of env whitelist_expression ?blocks] by (simp add: count_list_0_iff)
  then have 3: "count_list (written (snd ?r)) trailer = 1" by (simp add: 1)
  have 4: "suffix trailer (file_content (snd ?r))"
    by (simp add: file_content_def 1 suffix_def)
  from tree 1 2 3 4 show ?thesis by blast
qed

text \<open>
  A run over two blocks, and a run over a text without a declaration, which has no
  block.
\<close>

theorem trailer_written_once_witness:
  "last (written (snd (minify_to_file (example_env two_functions_tree) two_functions_source (Some [])))) = trailer
   \<and> count_list (written (snd (minify_to_file (example_env two_functions_tree) two_functions_source (Some [])))) trailer = 1
   \<and> written (snd (minify_to_file (example_env (Other [Other []])) ''import m'' None)) = [trailer]"
proof -
  have a: "fst (minify_to_file (example_env two_functions_tree) two_functions_source (Some [])) = Returned"
    by code_simp
  have b: "fst (minify_to_file (example_env (Other [Other []])) ''import m'' None) = Returned"
    by code_simp
  have c: "yield_next_function_block (\<lambda>text. tree) ''import m'' = []
      \<or> ast_parse (example_env (Other [Other []])) (line_joiner ''import m'') \<noteq> Inr tree" for tree
  proof (cases "tree = Other [Other []]")
    case True
    have "yield_next_function_block (\<lambda>text. Other [Other []]) ''import m'' = []" by code_simp
    with True show ?thesis by simp
  next
    case False
    then show ?thesis by (simp add: example_env_def)
  qed
  from trailer_written_once [OF a]
  have 1: "last (written (snd (minify_to_file (example_env two_functions_tree) two_functions_source (Some [])))) = trailer"
    and 2: "count_list (written (snd (minify_to_file (example_env two_functions_tree) two_functions_source (Some [])))) trailer = 1"
    by blast+
  from trailer_written_once [OF b] obtain tree
    where t: "ast_parse (example_env (Other [Other []])) (line_joiner ''import m'') = Inr tree"
      and w: "written (snd (minify_to_file (example_env (Other [Other []])) ''import m'' None))
      = concat (map (block_writes (example_env (Other [Other []])) None)
               (yield_next_function_block (\<lambda>text. tree) ''import m'')) @ [trailer]"
    by blast
  from c [of tree] t have "yield_next_function_block (\<lambda>text. tree) ''import m'' = []" by simp
  with w have 3: "written (snd (minify_to_file (example_env (Other [Other []])) ''import m'' None)) = [trailer]"
    by simp
  from 1 2 3 show ?thesis by blast
qed







lemma whitelist_found_first:
  "(\<forall>p\<in>set pre. re_match env p text = Inr False) \<Longrightarrow> re_match env expr text = Inr True \<Longrightarrow>
   whitelist_found env (pre @ expr # post) text = Inr (Some expr)"
  by (induction pre) simp_all

lemma whitelist_found_none:
  "(\<forall>p\<in>set exprs. re_match env p text = Inr False) \<Longrightarrow> whitelist_found env exprs text = Inr None"
  by (induction exprs) simp_all

text \<open>
  C6. With a list of expressions, the block is dedented and the expressions are tried
  in order with \<^verbatim>\<open>re.match\<close> under \<^verbatim>\<open>re.DOTALL | re.IGNORECASE\<close>. The first one that matches
  exempts the block, which is written as it is, and is the one logged; whatever stands
  behind it in the list plays no part. When none matches, the dedented block goes to the
  transformation. The outcome and the text to write depend on the list and the block
  only, not on the block counter or on what was written before.
\<close>

theorem whitelist_first_match_wins:
  "((\<forall>p\<in>set pre. re_match env p (dedent env in_func) = Inr False)
      \<and> re_match env expr (dedent env in_func) = Inr True
     \<longrightarrow> (\<forall>post. whitelist_found env (pre @ expr # post) (dedent env in_func) = Inr (Some expr)
           \<and> output_code_block env (Some (pre @ expr # post)) counter in_func out
               = Inr (in_func,
                      out\<lparr>logged := logged out @
                        [''Whitelisted expression found in block '' @ py_str (int counter) @ '': '' @ expr]\<rparr>)))
   \<and> ((\<forall>p\<in>set exprs. re_match env p (dedent env in_func) = Inr False)
     \<longrightarrow> whitelist_found env exprs (dedent env in_func) = Inr None
       \<and> output_code_block env (Some exprs) counter in_func out
           = (case mini env (dedent env in_func) of
                Inl (IndentationError e) \<Rightarrow>
                  Inl (SystemExit 1, out\<lparr>printed := printed out @ diagnostic env in_func\<rparr>)
              | Inl (OtherException e) \<Rightarrow> Inl (Raised (OtherException e), out)
              | Inl ZeroDivisionError \<Rightarrow> Inl (Raised ZeroDivisionError, out)
              | Inr mini_dedent \<Rightarrow> Inr (indent env mini_dedent, out)))
   \<and> map_sum fst fst (output_code_block env (Some exprs) counter in_func out)
       = map_sum fst fst (output_code_block env (Some exprs) counter' in_func out')"
proof (intro conjI impI allI)
  fix post
  assume h: "(\<forall>p\<in>set pre. re_match env p (dedent env in_func) = Inr False)
      \<and> re_match env expr (dedent env in_func) = Inr True"
  then show f: "whitelist_found env (pre @ expr # post) (dedent env in_func) = Inr (Some expr)"
    by (simp add: whitelist_found_first)
  show "output_code_block env (Some (pre @ expr # post)) counter in_func out
               = Inr (in_func,
                      out\<lparr>logged := logged out @
                        [''Whitelisted expression found in block '' @ py_str (int counter) @ '': '' @ expr]\<rparr>)"
    by (simp add: output_code_block_def f)
next
  assume h: "\<forall>p\<in>set exprs. re_match env p (dedent env in_func) = Inr False"
  then show n: "whitelist_found env exprs (dedent env in_func) = Inr None"
    by (rule whitelist_found_none)
  show "output_code_block env (Some exprs) counter in_func out
           = (case mini env (dedent env in_func) of
                Inl (IndentationError e) \<Rightarrow>
                  Inl (SystemExit 1, out\<lparr>printed := printed out @ diagnostic env in_func\<rparr>)
              | Inl (OtherException e) \<Rightarrow> Inl (Raised (OtherException e), out)
              | Inl ZeroDivisionError \<Rightarrow> Inl (Raised ZeroDivisionError, out)
              | Inr mini_dedent \<Rightarrow> Inr (indent env mini_dedent, out))"
    by (simp add: output_code_block_def n diagnostic_def error_text_def split: sum.splits raised.splits)
next
  show "map_sum fst fst (output_code_block env (Some exprs) counter in_func out)
       = map_sum fst fst (output_code_block env (Some exprs) counter' in_func out')"
    by (simp add: output_code_block_def Let_def split: option.splits sum.splits raised.splits)
qed

text \<open>
  The second of three expressions matches, and the third would too; of two
  expressions none matches.
\<close>

theorem whitelist_first_match_wins_witness:
  "output_code_block (example_env two_functions_tree) (Some [''z'', ''y'', ''y ='']) 2 ''    y = 2'' empty_sink
     = Inr (''    y = 2'', empty_sink\<lparr>logged := [''Whitelisted expression found in block 2: y'']\<rparr>)
   \<and> output_code_block (example_env two_functions_tree) (Some [''z'', ''x'']) 2 ''    y = 2'' empty_sink
     = Inr (''    y=2'', empty_sink)"
proof -
  let ?env = "example_env two_functions_tree"
  have a: "(\<forall>p\<in>set [''z'']. re_match ?env p (dedent ?env ''    y = 2'') = Inr False)
     \<and> re_match ?env ''y'' (dedent ?env ''    y = 2'') = Inr True"
    by code_simp
  have b: "\<forall>p\<in>set [''z'', ''x'']. re_match ?env p (dedent ?env ''    y = 2'') = Inr False"
    by code_simp
  have c: "py_str (int 2) = ''2''" by code_simp
  have d: "(case mini ?env (dedent ?env ''    y = 2'') of
                Inl (IndentationError e) \<Rightarrow>
                  Inl (SystemExit 1, empty_sink\<lparr>printed := printed empty_sink @ diagnostic ?env ''    y = 2''\<rparr>)
              | Inl (OtherException e) \<Rightarrow> Inl (Raised (OtherException e), empty_sink)
              | Inl ZeroDivisionError \<Rightarrow> Inl (Raised ZeroDivisionError, empty_sink)
              | Inr mini_dedent \<Rightarrow> Inr (indent ?env mini_dedent, empty_sink))
      = Inr (''    y=2'', empty_sink)"
    by code_simp
  note t = whitelist_first_match_wins [of "[''z'']" ?env "''    y = 2''" "''y''" 2 empty_sink "[''z'', ''x'']"]
  from t a have "output_code_block ?env (Some ([''z''] @ ''y'' # [''y =''])) 2 ''    y = 2'' empty_sink
               = Inr (''    y = 2'',
                      empty_sink\<lparr>logged := logged empty_sink @
                        [''Whitelisted expression found in block '' @ py_str (int 2) @ '': '' @ ''y'']\<rparr>)"
    by blast
  then have 1: "output_code_block ?env (Some [''z'', ''y'', ''y ='']) 2 ''    y = 2'' empty_sink
     = Inr (''    y = 2'', empty_sink\<lparr>logged := [''Whitelisted expression found in block 2: y'']\<rparr>)"
    unfolding c by (simp add: empty_sink_def)
  from t b have "output_code_block ?env (Some [''z'', ''x'']) 2 ''    y = 2'' empty_sink
           = (case mini ?env (dedent ?env ''    y = 2'') of
                Inl (IndentationError e) \<Rightarrow>
                  Inl (SystemExit 1, empty_sink\<lparr>printed := printed empty_sink @ diagnostic ?env ''    y = 2''\<rparr>)
              | Inl (OtherException e) \<Rightarrow> Inl (Raised (OtherException e), empty_sink)
              | Inl ZeroDivisionError \<Rightarrow> Inl (Raised ZeroDivisionError, empty_sink)
              | Inr mini_dedent \<Rightarrow> Inr (indent ?env mini_dedent, empty_sink))"
    by blast
  then have 2: "output_code_block ?env (Some [''z'', ''x'']) 2 ''    y = 2'' empty_sink
     = Inr (''    y=2'', empty_sink)"
    unfolding d .
  from 1 2 show ?thesis by blast
qed

text \<open>
  C2, at the failing input. Without a whitelist (the default of the command) both
  bodies of the example are written as they are, whereas with an empty whitelist both
  are transformed: the test \<^verbatim>\<open>whitelist_expression is not None\<close> guards the transformation
  and not only the matching.
\<close>

theorem absent_whitelist_writes_verbatim:
  "written (snd (minify_to_file (example_env two_functions_tree) two_functions_source None))
     = [newline # new_lines [''import m'', ''def f(a, b):''], newline # ''    x = 1'',
        newline # new_lines [''    return (x, a)'', ''def g():''], newline # ''    y = 2'', trailer]
   \<and> written (snd (minify_to_file (example_env two_functions_tree) two_functions_source (Some [])))
     = [newline # new_lines [''import m'', ''def f(a, b):''], newline # ''    x=1'',
        newline # new_lines [''    return (x, a)'', ''def g():''], newline # ''    y=2'', trailer]"
  by code_simp
section \<open>The process teardown\<close>

lemma poll_exit_alive:
  "k \<le> n \<Longrightarrow> (\<forall>i. k \<le> i \<and> i < n \<longrightarrow> time_time w i < d \<and> os_kill w i = Signalled) \<Longrightarrow>
   poll_exit (n - k + f) w pid d k k = poll_exit f w pid d n n"
proof (induction "n - k" arbitrary: k)
  case 0
  then show ?case by simp
next
  case (Suc m)
  then have lt: "k < n" and m: "m = n - Suc k" by simp_all
  from Suc.prems lt have a: "time_time w k < d" "os_kill w k = Signalled" by simp_all
  have "n - k + f = Suc (n - Suc k + f)" using lt by simp
  then have "poll_exit (n - k + f) w pid d k k = poll_exit (n - Suc k + f) w pid d (Suc k) (Suc k)"
    using a by simp
  also have "\<dots> = poll_exit f w pid d n n"
    using Suc.hyps(1) [OF m] lt Suc.prems(2) by simp
  finally show ?case .
qed

lemma poll_exit_reaches:
  assumes "1 \<le> n" "n \<le> fuel" "polls_alive w d n"
  shows "poll_exit fuel w pid d 1 1 =
     (if time_time w n < d then
        (case os_kill w n of
           ProcessLookupError \<Rightarrow> Some (Inl (Inr ()))
         | PermissionError \<Rightarrow>
             Some (Inl (Inl (PermissionError_raised
               (''No permission to check/terminate pid='' @ py_str pid))))
         | Signalled \<Rightarrow> poll_exit (fuel - n) w pid d (n + 1) (n + 1))
      else Some (Inr n))"
proof -
  have f: "fuel = n - 1 + Suc (fuel - n)" using assms by simp
  have "poll_exit (n - 1 + Suc (fuel - n)) w pid d 1 1 = poll_exit (Suc (fuel - n)) w pid d n n"
    using assms(1,3) by (intro poll_exit_alive) (simp_all add: polls_alive_def)
  with f have "poll_exit fuel w pid d 1 1 = poll_exit (Suc (fuel - n)) w pid d n n" by simp
  then show ?thesis by simp
qed

text \<open>
  C9, as the code has it. A pid that is not positive raises \<^verbatim>\<open>ValueError\<close> before any
  signal is sent. For a positive pid: when the process is gone at the first signal, in
  a polling round or at the forced kill, the function returns normally; when the
  permission is denied at one of these three places, \<^verbatim>\<open>PermissionError\<close> is raised with a
  message of its own for each place. The n-th polling round is reached with enough fuel
  when the rounds before it found the clock below the deadline and the process alive.
\<close>

theorem kill_process_id_outcomes:
  "(pid \<le> 0 \<longrightarrow>
      kill_process_id fuel w pid timeout_s = Some (Inl (ValueError ''pid must be a positive integer'')))
   \<and> (0 < pid \<longrightarrow>
      (os_kill w 0 = ProcessLookupError \<longrightarrow> kill_process_id fuel w pid timeout_s = Some (Inr ()))
    \<and> (os_kill w 0 = PermissionError \<longrightarrow>
          kill_process_id fuel w pid timeout_s
            = Some (Inl (PermissionError_raised (''No permission to terminate pid='' @ py_str pid))))
    \<and> (os_kill w 0 = Signalled \<and> 1 \<le> n \<and> n \<le> fuel
          \<and> polls_alive w (time_time w 0 + timeout_s) n \<longrightarrow>
         (time_time w n < time_time w 0 + timeout_s \<and> os_kill w n = ProcessLookupError \<longrightarrow>
            kill_process_id fuel w pid timeout_s = Some (Inr ()))
       \<and> (time_time w n < time_time w 0 + timeout_s \<and> os_kill w n = PermissionError \<longrightarrow>
            kill_process_id fuel w pid timeout_s
              = Some (Inl (PermissionError_raised
                  (''No permission to check/terminate pid='' @ py_str pid))))
       \<and> (\<not> time_time w n < time_time w 0 + timeout_s \<and> os_kill w n = ProcessLookupError \<longrightarrow>
            kill_process_id fuel w pid timeout_s = Some (Inr ()))
       \<and> (\<not> time_time w n < time_time w 0 + timeout_s \<and> os_kill w n = PermissionError \<longrightarrow>
            kill_process_id fuel w pid timeout_s
              = Some (Inl (PermissionError_raised
                  (''No permission to force-kill pid='' @ py_str pid))))))"
proof (intro conjI impI)
  assume "pid \<le> 0"
  then show "kill_process_id fuel w pid timeout_s = Some (Inl (ValueError ''pid must be a positive integer''))"
    by (simp add: kill_process_id_def)
next
  assume "0 < pid" "os_kill w 0 = ProcessLookupError"
  then show "kill_process_id fuel w pid timeout_s = Some (Inr ())"
    by (simp add: kill_process_id_def)
next
  assume "0 < pid" "os_kill w 0 = PermissionError"
  then show "kill_process_id fuel w pid timeout_s
            = Some (Inl (PermissionError_raised (''No permission to terminate pid='' @ py_str pid)))"
    by (simp add: kill_process_id_def)
next
  let ?d = "time_time w 0 + timeout_s"
  assume p: "0 < pid" and h: "os_kill w 0 = Signalled \<and> 1 \<le> n \<and> n \<le> fuel \<and> polls_alive w ?d n"
  then have r: "poll_exit fuel w pid ?d 1 1 =
     (if time_time w n < ?d then
        (case os_kill w n of
           ProcessLookupError \<Rightarrow> Some (Inl (Inr ()))
         | PermissionError \<Rightarrow>
             Some (Inl (Inl (PermissionError_raised
               (''No permission to check/terminate pid='' @ py_str pid))))
         | Signalled \<Rightarrow> poll_exit (fuel - n) w pid ?d (n + 1) (n + 1))
      else Some (Inr n))"
    by (intro poll_exit_reaches) simp_all
  {
    assume "time_time w n < ?d \<and> os_kill w n = ProcessLookupError"
    with p h r show "kill_process_id fuel w pid timeout_s = Some (Inr ())"
      by (simp add: kill_process_id_def)
  }
  {
    assume "time_time w n < ?d \<and> os_kill w n = PermissionError"
    with p h r show "kill_process_id fuel w pid timeout_s
              = Some (Inl (PermissionError_raised
                  (''No permission to check/terminate pid='' @ py_str pid)))"
      by (simp add: kill_process_id_def)
  }
  {
    assume "\<not> time_time w n < ?d \<and> os_kill w n = ProcessLookupError"
    with p h r show "kill_process_id fuel w pid timeout_s = Some (Inr ())"
      by (simp add: kill_process_id_def)
  }
  {
    assume "\<not> time_time w n < ?d \<and> os_kill w n = PermissionError"
    with p h r show "kill_process_id fuel w pid timeout_s
              = Some (Inl (PermissionError_raised
                  (''No permission to force-kill pid='' @ py_str pid)))"
      by (simp add: kill_process_id_def)
  }
qed

text \<open>
  A process gone at the first signal, one gone in the third polling round, and one
  that may not be killed when the deadline has passed.
\<close>

theorem kill_process_id_outcomes_witness:
  "kill_process_id 0 \<lparr>os_kill = (\<lambda>n. ProcessLookupError), time_time = (\<lambda>n. real n)\<rparr> 4242 2 = Some (Inr ())
   \<and> kill_process_id 40 \<lparr>os_kill = (\<lambda>n. if n < 3 then Signalled else ProcessLookupError),
                          time_time = (\<lambda>n. real n)\<rparr> 4242 10 = Some (Inr ())
   \<and> kill_process_id 40 \<lparr>os_kill = (\<lambda>n. if n < 3 then Signalled else PermissionError),
                          time_time = (\<lambda>n. real n)\<rparr> 4242 3
       = Some (Inl (PermissionError_raised ''No permission to force-kill pid=4242''))"
proof -
  let ?w1 = "\<lparr>os_kill = (\<lambda>n. ProcessLookupError), time_time = (\<lambda>n. real n)\<rparr>"
  let ?w2 = "\<lparr>os_kill = (\<lambda>n. if n < 3 then Signalled else ProcessLookupError), time_time = (\<lambda>n. real n)\<rparr>"
  let ?w3 = "\<lparr>os_kill = (\<lambda>n::nat. if n < 3 then Signalled else PermissionError), time_time = (\<lambda>n. real n)\<rparr>"
  have s: "py_str 4242 = ''4242''" by code_simp
  have 1: "kill_process_id 0 ?w1 4242 2 = Some (Inr ())"
    using kill_process_id_outcomes [of 4242 0 ?w1 2 0] by simp
  have a2: "polls_alive ?w2 (time_time ?w2 0 + 10) 3" by (simp add: polls_alive_def)
  have 2: "kill_process_id 40 ?w2 4242 10 = Some (Inr ())"
    using kill_process_id_outcomes [of 4242 40 ?w2 10 3] a2 by simp
  have a3: "polls_alive ?w3 (time_time ?w3 0 + 3) 3" by (simp add: polls_alive_def)
  have 3: "kill_process_id 40 ?w3 4242 3
       = Some (Inl (PermissionError_raised ''No permission to force-kill pid=4242''))"
    using kill_process_id_outcomes [of 4242 40 ?w3 3 3] a3 s by simp
  from 1 2 3 show ?thesis by blast
qed

text \<open>
  The claim as stated, for every pid, fails for a negative pid (a process group): the
  first signal would find no process, yet the function raises \<^verbatim>\<open>ValueError\<close>.
\<close>

theorem kill_process_id_counterexample:
  "os_kill \<lparr>os_kill = (\<lambda>n. ProcessLookupError), time_time = (\<lambda>n. real n)\<rparr> 0 = ProcessLookupError
   \<and> kill_process_id 40 \<lparr>os_kill = (\<lambda>n. ProcessLookupError), time_time = (\<lambda>n. real n)\<rparr> (- 7) 2
       = Some (Inl (ValueError ''pid must be a positive integer''))"
  by (simp add: kill_process_id_def)

section \<open>The line joiner\<close>

subsection \<open>Character classes\<close>

lemma space_not_word: "is_space c \<Longrightarrow> \<not> is_word c"
  by (auto simp: is_space_def is_word_def Let_def)

lemma newline_space: "is_space newline"
  by (simp add: is_space_def newline_def)

lemma not_space_simps:
  "\<not> is_space CHR ''(''" "\<not> is_space CHR '')''" "\<not> is_space CHR '',''" "\<not> is_space CHR '':''"
  "\<not> is_space CHR ''d''" "\<not> is_space CHR ''e''" "\<not> is_space CHR ''f''"
  "\<not> is_space CHR ''r''" "\<not> is_space CHR ''t''" "\<not> is_space CHR ''u''" "\<not> is_space CHR ''n''"
  by (simp_all add: is_space_def)

lemma not_word_simps:
  "\<not> is_word CHR ''(''" "\<not> is_word CHR '')''" "\<not> is_word CHR '',''" "\<not> is_word CHR '':''"
  by (simp_all add: is_word_def Let_def)

lemma space_blank: "is_space CHR '' ''"
  by (simp add: is_space_def)

subsection \<open>Runs\<close>

lemma dropWhile_all: "\<forall>c\<in>set xs. P c \<Longrightarrow> \<not> P y \<Longrightarrow> dropWhile P (xs @ y # ys) = y # ys"
  by (induction xs) simp_all

lemma takeWhile_all: "\<forall>c\<in>set xs. P c \<Longrightarrow> \<not> P y \<Longrightarrow> takeWhile P (xs @ y # ys) = xs"
  by (induction xs) simp_all

lemma dropWhile_all_Nil: "\<forall>c\<in>set xs. P c \<Longrightarrow> dropWhile P xs = []"
  by (induction xs) simp_all

subsection \<open>The comma rewrite\<close>

declare dropWhile_eq_Nil_conv [simp del]

lemma dropWhile_nonempty_append:
  "dropWhile P xs \<noteq> [] \<Longrightarrow> dropWhile P (xs @ ys) = dropWhile P xs @ ys"
  by (induction xs) auto

lemma re_sub_comma_step_Nil:
  "dropWhile is_space (c # cs) = [] \<Longrightarrow> re_sub_comma (c # cs) = c # re_sub_comma cs"
  by (simp del: dropWhile.simps)

lemma re_sub_comma_step_comma:
  "dropWhile is_space (c # cs) = CHR '','' # r \<Longrightarrow>
   re_sub_comma (c # cs) = '', '' @ re_sub_comma (dropWhile is_space r)"
  by (simp del: dropWhile.simps)

lemma re_sub_comma_step_other:
  "dropWhile is_space (c # cs) = d # r \<Longrightarrow> d \<noteq> CHR '','' \<Longrightarrow>
   re_sub_comma (c # cs) = c # re_sub_comma cs"
  by (simp del: dropWhile.simps)

declare re_sub_comma.simps(2) [simp del]

lemma re_sub_comma_spaces: "\<forall>c\<in>set w. is_space c \<Longrightarrow> re_sub_comma w = w"
proof (induction w)
  case Nil
  then show ?case by simp
next
  case (Cons c w)
  then have "dropWhile is_space (c # w) = []" by (intro dropWhile_all_Nil) simp
  then have "re_sub_comma (c # w) = c # re_sub_comma w" by (rule re_sub_comma_step_Nil)
  with Cons show ?case by simp
qed

lemma re_sub_comma_copy:
  "\<not> is_space d \<Longrightarrow> d \<noteq> CHR '','' \<Longrightarrow> re_sub_comma (d # ys) = d # re_sub_comma ys"
  by (rule re_sub_comma_step_other [of d ys d ys]) simp_all

lemma re_sub_comma_comma:
  "\<forall>c\<in>set w. is_space c \<Longrightarrow>
   re_sub_comma (w @ CHR '','' # ys) = '', '' @ re_sub_comma (dropWhile is_space ys)"
proof -
  assume a: "\<forall>c\<in>set w. is_space c"
  then have d: "dropWhile is_space (w @ CHR '','' # ys) = CHR '','' # ys"
    by (intro dropWhile_all) (simp_all add: not_space_simps)
  obtain c cs where c: "w @ CHR '','' # ys = c # cs" by (cases w) simp_all
  with d have "dropWhile is_space (c # cs) = CHR '','' # ys" by simp
  then have "re_sub_comma (c # cs) = '', '' @ re_sub_comma (dropWhile is_space ys)"
    by (rule re_sub_comma_step_comma)
  with c show ?thesis by simp
qed

lemma re_sub_comma_run:
  "\<forall>c\<in>set w. is_space c \<Longrightarrow> \<not> is_space d \<Longrightarrow> d \<noteq> CHR '','' \<Longrightarrow>
   re_sub_comma (w @ d # ys) = w @ d # re_sub_comma ys"
proof (induction w)
  case Nil
  then show ?case by (simp add: re_sub_comma_copy)
next
  case (Cons c w)
  then have "dropWhile is_space ((c # w) @ d # ys) = d # ys" by (intro dropWhile_all) simp_all
  then have "dropWhile is_space (c # w @ d # ys) = d # ys" by simp
  then have "re_sub_comma (c # w @ d # ys) = c # re_sub_comma (w @ d # ys)"
    using Cons.prems(3) by (rule re_sub_comma_step_other)
  with Cons show ?case by simp
qed

text \<open>Every text is a run of whitespace followed by nothing, a comma, or another character.\<close>

lemma run_cases:
  obtains (spaces) "\<forall>c\<in>set s. is_space c"
  | (comma) w ys where "s = w @ CHR '','' # ys" "\<forall>c\<in>set w. is_space c"
  | (other) w d ys where "s = w @ d # ys" "\<forall>c\<in>set w. is_space c" "\<not> is_space d" "d \<noteq> CHR '',''"
proof (cases "dropWhile is_space s")
  case Nil
  then have "\<forall>c\<in>set s. is_space c" by (simp add: dropWhile_eq_Nil_conv)
  then show ?thesis by (rule spaces)
next
  case (Cons d ys)
  have s: "s = takeWhile is_space s @ d # ys" using Cons by (metis takeWhile_dropWhile_id)
  have w: "\<forall>c\<in>set (takeWhile is_space s). is_space c" by (auto dest: set_takeWhileD)
  have d: "\<not> is_space d" using Cons by (metis hd_dropWhile list.sel(1) list.distinct(1))
  show ?thesis
  proof (cases "d = CHR '',''")
    case True
    with s w show ?thesis by (intro comma [of "takeWhile is_space s" ys]) simp_all
  next
    case False
    with s w d show ?thesis by (intro other [of "takeWhile is_space s" d ys]) simp_all
  qed
qed

lemma re_sub_comma_barrier:
  "\<not> is_space d \<Longrightarrow> d \<noteq> CHR '','' \<Longrightarrow>
   re_sub_comma (xs @ d # ys) = re_sub_comma xs @ d # re_sub_comma ys"
proof (induction "length xs" arbitrary: xs rule: less_induct)
  case less
  show ?case
  proof (cases xs rule: run_cases)
    case spaces
    with less.prems show ?thesis by (simp add: re_sub_comma_run re_sub_comma_spaces)
  next
    case (comma w zs)
    let ?r = "dropWhile is_space zs"
    have len: "length ?r < length xs"
      using comma(1) length_dropWhile_le [of is_space zs] by simp
    show ?thesis
    proof (cases "?r = []")
      case True
      then have "\<forall>c\<in>set zs. is_space c" by (simp add: dropWhile_eq_Nil_conv)
      then have "dropWhile is_space (zs @ d # ys) = d # ys"
        using less.prems by (intro dropWhile_all) simp_all
      moreover have "re_sub_comma (xs @ d # ys) = '', '' @ re_sub_comma (dropWhile is_space (zs @ d # ys))"
        using comma re_sub_comma_comma [of w "zs @ d # ys"] by simp
      moreover have "re_sub_comma xs = '', '' @ re_sub_comma ?r"
        using comma re_sub_comma_comma [of w zs] by simp
      ultimately show ?thesis using True less.prems by (simp add: re_sub_comma_copy)
    next
      case False
      then have "dropWhile is_space (zs @ d # ys) = ?r @ d # ys"
        by (rule dropWhile_nonempty_append)
      moreover have "re_sub_comma (xs @ d # ys) = '', '' @ re_sub_comma (dropWhile is_space (zs @ d # ys))"
        using comma re_sub_comma_comma [of w "zs @ d # ys"] by simp
      moreover have "re_sub_comma xs = '', '' @ re_sub_comma ?r"
        using comma re_sub_comma_comma [of w zs] by simp
      moreover have "re_sub_comma (?r @ d # ys) = re_sub_comma ?r @ d # re_sub_comma ys"
        using less.hyps [OF len] less.prems by simp
      ultimately show ?thesis by simp
    qed
  next
    case (other w e zs)
    have len: "length zs < length xs" using other(1) by simp
    have "re_sub_comma (xs @ d # ys) = w @ e # re_sub_comma (zs @ d # ys)"
      using other re_sub_comma_run [of w e "zs @ d # ys"] by simp
    moreover have "re_sub_comma xs = w @ e # re_sub_comma zs"
      using other re_sub_comma_run [of w e zs] by simp
    moreover have "re_sub_comma (zs @ d # ys) = re_sub_comma zs @ d # re_sub_comma ys"
      using less.hyps [OF len] less.prems by simp
    ultimately show ?thesis by simp
  qed
qed

lemma re_sub_comma_head:
  assumes "s \<noteq> []" "\<not> is_space (hd s)"
  shows "re_sub_comma s \<noteq> [] \<and> \<not> is_space (hd (re_sub_comma s))"
proof -
  from assms obtain d ys where s: "s = d # ys" "\<not> is_space d" by (cases s) auto
  show ?thesis
  proof (cases "d = CHR '',''")
    case True
    with s re_sub_comma_comma [of "[]" ys] show ?thesis by (simp add: not_space_simps)
  next
    case False
    with s show ?thesis by (simp add: re_sub_comma_copy)
  qed
qed

lemma re_sub_comma_idem: "re_sub_comma (re_sub_comma s) = re_sub_comma s"
proof (induction "length s" arbitrary: s rule: less_induct)
  case less
  show ?case
  proof (cases s rule: run_cases)
    case spaces
    then show ?thesis by (simp add: re_sub_comma_spaces)
  next
    case (comma w zs)
    let ?r = "dropWhile is_space zs"
    have len: "length ?r < length s"
      using comma(1) length_dropWhile_le [of is_space zs] by simp
    have 1: "re_sub_comma s = '', '' @ re_sub_comma ?r"
      using comma re_sub_comma_comma [of w zs] by simp
    have "dropWhile is_space (re_sub_comma ?r) = re_sub_comma ?r"
    proof (cases "?r = []")
      case True
      then show ?thesis by (simp only: re_sub_comma.simps dropWhile.simps)
    next
      case False
      then have "\<not> is_space (hd ?r)" by (rule hd_dropWhile)
      with False re_sub_comma_head [of ?r] show ?thesis
        by (cases "re_sub_comma ?r") auto
    qed
    then have "re_sub_comma ('', '' @ re_sub_comma ?r) = '', '' @ re_sub_comma (re_sub_comma ?r)"
      using re_sub_comma_comma [of "[]" "CHR '' '' # re_sub_comma ?r"] by (simp add: space_blank)
    with 1 less.hyps [OF len] show ?thesis by simp
  next
    case (other w e zs)
    have len: "length zs < length s" using other(1) by simp
    have 1: "re_sub_comma s = w @ e # re_sub_comma zs"
      using other re_sub_comma_run [of w e zs] by simp
    have "re_sub_comma (w @ e # re_sub_comma zs) = w @ e # re_sub_comma (re_sub_comma zs)"
      using other by (intro re_sub_comma_run) simp_all
    with 1 less.hyps [OF len] show ?thesis by simp
  qed
qed

lemma re_sub_comma_set: "set (re_sub_comma s) \<subseteq> set s \<union> {CHR '','', CHR '' ''}"
proof (induction "length s" arbitrary: s rule: less_induct)
  case less
  show ?case
  proof (cases s rule: run_cases)
    case spaces
    then have "re_sub_comma s = s" by (rule re_sub_comma_spaces)
    then show ?thesis by auto
  next
    case (comma w zs)
    let ?r = "dropWhile is_space zs"
    have len: "length ?r < length s"
      using comma(1) length_dropWhile_le [of is_space zs] by simp
    have "set ?r \<subseteq> set zs" by (auto dest: set_dropWhileD)
    then have sub: "set ?r \<subseteq> set s" using comma(1) by auto
    have ih: "set (re_sub_comma ?r) \<subseteq> set ?r \<union> {CHR '','', CHR '' ''}"
      using len by (rule less.hyps)
    have "re_sub_comma s = '', '' @ re_sub_comma ?r"
      unfolding comma(1) using comma(2) by (rule re_sub_comma_comma)
    then have "set (re_sub_comma s) = {CHR '','', CHR '' ''} \<union> set (re_sub_comma ?r)" by simp
    with ih sub show ?thesis by blast
  next
    case (other w d zs)
    have len: "length zs < length s" using other(1) by simp
    have ih: "set (re_sub_comma zs) \<subseteq> set zs \<union> {CHR '','', CHR '' ''}"
      using len by (rule less.hyps)
    have "re_sub_comma s = w @ d # re_sub_comma zs"
      unfolding other(1) using other(2,3,4) by (rule re_sub_comma_run)
    then have "set (re_sub_comma s) = set w \<union> {d} \<union> set (re_sub_comma zs)" by simp
    moreover have "set s = set w \<union> {d} \<union> set zs" unfolding other(1) by simp
    ultimately show ?thesis using ih by blast
  qed
qed

subsection \<open>The newline rewrite\<close>

lemma re_sub_newline_step_yes:
  "newline \<in> set (takeWhile is_space (c # cs)) \<Longrightarrow>
   re_sub_newline (c # cs) = '' '' @ re_sub_newline (dropWhile is_space (c # cs))"
  by (simp del: takeWhile.simps dropWhile.simps)

lemma re_sub_newline_step_no:
  "newline \<notin> set (takeWhile is_space (c # cs)) \<Longrightarrow>
   re_sub_newline (c # cs) = c # re_sub_newline cs"
  by (simp del: takeWhile.simps dropWhile.simps)

declare re_sub_newline.simps(2) [simp del]

lemma re_sub_newline_none: "newline \<notin> set s \<Longrightarrow> re_sub_newline s = s"
proof (induction s)
  case Nil
  then show ?case by simp
next
  case (Cons c s)
  then have "newline \<notin> set (takeWhile is_space (c # s))" by (auto dest: set_takeWhileD)
  then have "re_sub_newline (c # s) = c # re_sub_newline s" by (rule re_sub_newline_step_no)
  with Cons show ?case by simp
qed

lemma takeWhile_all_id: "\<forall>c\<in>set xs. P c \<Longrightarrow> takeWhile P xs = xs"
  by (induction xs) simp_all

lemma re_sub_newline_spaces:
  assumes "\<forall>c\<in>set w. is_space c"
  shows "re_sub_newline w = (if newline \<in> set w then '' '' else w)"
proof (cases "newline \<in> set w")
  case False
  then show ?thesis by (simp add: re_sub_newline_none)
next
  case True
  then obtain c cs where w: "w = c # cs" by (cases w) auto
  from assms have t: "takeWhile is_space w = w" and d: "dropWhile is_space w = []"
    by (simp_all add: takeWhile_all_id dropWhile_all_Nil)
  from True t w have "newline \<in> set (takeWhile is_space (c # cs))" by simp
  then have "re_sub_newline (c # cs) = '' '' @ re_sub_newline (dropWhile is_space (c # cs))"
    by (rule re_sub_newline_step_yes)
  with w d True show ?thesis by simp
qed

lemma re_sub_newline_spaces_props:
  assumes "\<forall>c\<in>set w. is_space c"
  shows "\<forall>c\<in>set (re_sub_newline w). is_space c" "re_sub_newline w = [] \<longleftrightarrow> w = []"
    "newline \<notin> set (re_sub_newline w)"
  using assms by (auto simp: re_sub_newline_spaces space_blank newline_def)

lemma takeWhile_barrier: "\<not> P d \<Longrightarrow> takeWhile P (xs @ d # ys) = takeWhile P xs"
  by (induction xs) simp_all

lemma dropWhile_barrier: "\<not> P d \<Longrightarrow> dropWhile P (xs @ d # ys) = dropWhile P xs @ d # ys"
  by (induction xs) simp_all

lemma re_sub_newline_barrier:
  "\<not> is_space d \<Longrightarrow> re_sub_newline (xs @ d # ys) = re_sub_newline xs @ d # re_sub_newline ys"
proof (induction "length xs" arbitrary: xs rule: less_induct)
  case less
  show ?case
  proof (cases xs)
    case Nil
    have "newline \<notin> set (takeWhile is_space (d # ys))" using less.prems by simp
    then have "re_sub_newline (d # ys) = d # re_sub_newline ys" by (rule re_sub_newline_step_no)
    with Nil show ?thesis by simp
  next
    case (Cons c cs)
    have t: "takeWhile is_space ((c # cs) @ d # ys) = takeWhile is_space (c # cs)"
      using less.prems by (rule takeWhile_barrier)
    have d: "dropWhile is_space ((c # cs) @ d # ys) = dropWhile is_space (c # cs) @ d # ys"
      using less.prems by (rule dropWhile_barrier)
    show ?thesis
    proof (cases "newline \<in> set (takeWhile is_space (c # cs))")
      case True
      have len: "length (dropWhile is_space (c # cs)) < length xs"
      proof -
        from True have "is_space c" by (auto split: if_splits)
        then have "dropWhile is_space (c # cs) = dropWhile is_space cs" by simp
        then show ?thesis using Cons length_dropWhile_le [of is_space cs] by simp
      qed
      from True t have "newline \<in> set (takeWhile is_space (c # (cs @ d # ys)))" by simp
      then have "re_sub_newline (c # (cs @ d # ys))
          = '' '' @ re_sub_newline (dropWhile is_space (c # (cs @ d # ys)))"
        by (rule re_sub_newline_step_yes)
      then have "re_sub_newline (xs @ d # ys)
          = '' '' @ re_sub_newline (dropWhile is_space (c # cs) @ d # ys)"
        using Cons d by simp
      moreover have "re_sub_newline xs = '' '' @ re_sub_newline (dropWhile is_space (c # cs))"
        using True Cons re_sub_newline_step_yes by simp
      moreover have "re_sub_newline (dropWhile is_space (c # cs) @ d # ys)
          = re_sub_newline (dropWhile is_space (c # cs)) @ d # re_sub_newline ys"
        using less.hyps [OF len] less.prems by simp
      ultimately show ?thesis by simp
    next
      case False
      have len: "length cs < length xs" using Cons by simp
      from False t have "newline \<notin> set (takeWhile is_space (c # (cs @ d # ys)))" by simp
      then have "re_sub_newline (c # (cs @ d # ys)) = c # re_sub_newline (cs @ d # ys)"
        by (rule re_sub_newline_step_no)
      moreover have "re_sub_newline xs = c # re_sub_newline cs"
        using False Cons re_sub_newline_step_no by simp
      moreover have "re_sub_newline (cs @ d # ys) = re_sub_newline cs @ d # re_sub_newline ys"
        using less.hyps [OF len] less.prems by simp
      ultimately show ?thesis using Cons by simp
    qed
  qed
qed

lemma re_sub_newline_set: "set (re_sub_newline s) \<subseteq> (set s - {newline}) \<union> {CHR '' ''}"
proof (induction "length s" arbitrary: s rule: less_induct)
  case less
  show ?case
  proof (cases s)
    case Nil
    then show ?thesis by simp
  next
    case (Cons c cs)
    show ?thesis
    proof (cases "newline \<in> set (takeWhile is_space (c # cs))")
      case True
      let ?r = "dropWhile is_space (c # cs)"
      have sp: "is_space c" using True by (auto split: if_splits)
      then have dd: "?r = dropWhile is_space cs" by simp
      have len: "length ?r < length s"
        using dd Cons length_dropWhile_le [of is_space cs] by simp
      have "set (dropWhile is_space cs) \<subseteq> set cs" by (auto dest: set_dropWhileD)
      then have sub: "set ?r \<subseteq> set s" using Cons dd by auto
      have ih: "set (re_sub_newline ?r) \<subseteq> (set ?r - {newline}) \<union> {CHR '' ''}"
        using len by (rule less.hyps)
      have "re_sub_newline (c # cs) = '' '' @ re_sub_newline ?r"
        using True by (rule re_sub_newline_step_yes)
      then have "set (re_sub_newline s) = {CHR '' ''} \<union> set (re_sub_newline ?r)"
        using Cons by simp
      with ih sub show ?thesis by blast
    next
      case False
      have len: "length cs < length s" using Cons by simp
      have ih: "set (re_sub_newline cs) \<subseteq> (set cs - {newline}) \<union> {CHR '' ''}"
        using len by (rule less.hyps)
      have c: "c \<noteq> newline"
      proof
        assume "c = newline"
        then have "newline \<in> set (takeWhile is_space (c # cs))" by (simp add: newline_space)
        with False show False by simp
      qed
      have "re_sub_newline (c # cs) = c # re_sub_newline cs"
        using False by (rule re_sub_newline_step_no)
      then have "set (re_sub_newline s) = {c} \<union> set (re_sub_newline cs)" using Cons by simp
      moreover have "set s = {c} \<union> set cs" using Cons by simp
      ultimately show ?thesis using ih c by auto
    qed
  qed
qed

lemma re_sub_newline_no_newline: "newline \<notin> set (re_sub_newline s)"
  using re_sub_newline_set [of s] by (auto simp: newline_def)

subsection \<open>The rewrite of a return statement\<close>

lemma reformat_return_no_newline: "newline \<notin> set (reformat_return x)"
  using re_sub_comma_set [of "re_sub_newline x"] re_sub_newline_no_newline [of x]
  by (auto simp: reformat_return_def Let_def newline_def)

lemma reformat_return_idem: "reformat_return (reformat_return x) = reformat_return x"
proof -
  have "re_sub_newline (reformat_return x) = reformat_return x"
    using reformat_return_no_newline by (rule re_sub_newline_none)
  then show ?thesis by (simp add: reformat_return_def Let_def re_sub_comma_idem)
qed

lemma re_sub_newline_copy: "\<not> is_space d \<Longrightarrow> re_sub_newline (d # ys) = d # re_sub_newline ys"
  using re_sub_newline_barrier [of d "[]" ys] by simp

lemma re_sub_newline_return:
  "re_sub_newline (w @ ''return'' @ ys) = re_sub_newline w @ ''return'' @ re_sub_newline ys"
proof -
  have "re_sub_newline (w @ CHR ''r'' # ''eturn'' @ ys)
      = re_sub_newline w @ CHR ''r'' # re_sub_newline (''eturn'' @ ys)"
    by (rule re_sub_newline_barrier) (simp add: not_space_simps)
  then show ?thesis by (simp add: re_sub_newline_copy not_space_simps)
qed

lemma re_sub_newline_parens:
  "re_sub_newline (w2 @ CHR ''('' # b @ '')'')
     = re_sub_newline w2 @ CHR ''('' # re_sub_newline b @ '')''"
proof -
  have "re_sub_newline (w2 @ CHR ''('' # b @ '')'')
      = re_sub_newline w2 @ CHR ''('' # re_sub_newline (b @ '')'')"
    by (rule re_sub_newline_barrier) (simp add: not_space_simps)
  moreover have "re_sub_newline (b @ CHR '')'' # []) = re_sub_newline b @ CHR '')'' # re_sub_newline []"
    by (rule re_sub_newline_barrier) (simp add: not_space_simps)
  ultimately show ?thesis by simp
qed

lemma re_sub_comma_return:
  "re_sub_comma (w @ ''return'' @ ys) = re_sub_comma w @ ''return'' @ re_sub_comma ys"
proof -
  have "re_sub_comma (w @ CHR ''r'' # ''eturn'' @ ys)
      = re_sub_comma w @ CHR ''r'' # re_sub_comma (''eturn'' @ ys)"
    by (rule re_sub_comma_barrier) (simp_all add: not_space_simps)
  then show ?thesis by (simp add: re_sub_comma_copy not_space_simps)
qed

lemma re_sub_comma_parens:
  "re_sub_comma (w2 @ CHR ''('' # b @ '')'')
     = re_sub_comma w2 @ CHR ''('' # re_sub_comma b @ '')''"
proof -
  have "re_sub_comma (w2 @ CHR ''('' # b @ '')'')
      = re_sub_comma w2 @ CHR ''('' # re_sub_comma (b @ '')'')"
    by (rule re_sub_comma_barrier) (simp_all add: not_space_simps)
  moreover have "re_sub_comma (b @ CHR '')'' # []) = re_sub_comma b @ CHR '')'' # re_sub_comma []"
    by (rule re_sub_comma_barrier) (simp_all add: not_space_simps)
  ultimately show ?thesis by simp
qed

lemma reformat_return_shape:
  assumes "\<forall>c\<in>set w. is_space c" "\<forall>c\<in>set w2. is_space c"
  shows "reformat_return (w @ ''return'' @ w2 @ CHR ''('' # b @ '')'')
       = re_sub_newline w @ ''return'' @ re_sub_newline w2 @ CHR ''('' # re_sub_comma (re_sub_newline b) @ '')''"
proof -
  have s1: "re_sub_comma (re_sub_newline w) = re_sub_newline w"
    and s2: "re_sub_comma (re_sub_newline w2) = re_sub_newline w2"
    using assms by (simp_all add: re_sub_comma_spaces re_sub_newline_spaces_props)
  have "reformat_return (w @ ''return'' @ w2 @ CHR ''('' # b @ '')'')
      = re_sub_comma (re_sub_newline w @ ''return'' @ re_sub_newline w2 @ CHR ''('' # re_sub_newline b @ '')'')"
    unfolding reformat_return_def Let_def re_sub_newline_return re_sub_newline_parens ..
  also have "\<dots> = re_sub_comma (re_sub_newline w) @ ''return'' @ re_sub_comma (re_sub_newline w2)
          @ CHR ''('' # re_sub_comma (re_sub_newline b) @ '')''"
    unfolding re_sub_comma_return re_sub_comma_parens ..
  finally show ?thesis unfolding s1 s2 .
qed

subsection \<open>The rewrite of the arguments\<close>

lemma py_rstrip_barrier: "\<not> is_space d \<Longrightarrow> py_rstrip (xs @ d # ys) = xs @ d # py_rstrip ys"
proof -
  assume d: "\<not> is_space d"
  have "dropWhile is_space (rev ys @ d # rev xs) = dropWhile is_space (rev ys) @ d # rev xs"
    using d by (rule dropWhile_barrier)
  then show ?thesis by (simp add: py_rstrip_def)
qed

lemma py_rstrip_Nil: "py_rstrip [] = []"
  by (simp add: py_rstrip_def)

lemma py_strip_rstrip: "py_strip s = py_rstrip (dropWhile is_space s)"
  by (simp add: py_strip_def py_rstrip_def)

lemma py_rstrip_last: "py_rstrip t = [] \<or> \<not> is_space (last (py_rstrip t))"
proof (cases "dropWhile is_space (rev t) = []")
  case True
  then show ?thesis by (simp add: py_rstrip_def)
next
  case False
  then have "\<not> is_space (hd (dropWhile is_space (rev t)))" by (rule hd_dropWhile)
  with False show ?thesis by (simp add: py_rstrip_def last_rev)
qed

lemma py_rstrip_head:
  assumes "t = [] \<or> \<not> is_space (hd t)"
  shows "py_rstrip t = [] \<or> \<not> is_space (hd (py_rstrip t))"
proof (cases t)
  case Nil
  then show ?thesis by (simp add: py_rstrip_Nil)
next
  case (Cons d ys)
  with assms have d: "\<not> is_space d" by simp
  from py_rstrip_barrier [OF d, of "[]" ys] Cons d show ?thesis by simp
qed

lemma py_rstrip_set: "set (py_rstrip t) \<subseteq> set t"
proof -
  have "set (dropWhile is_space (rev t)) \<subseteq> set (rev t)" by (auto dest: set_dropWhileD)
  then show ?thesis by (simp add: py_rstrip_def)
qed

lemma re_sub_comma_rstrip:
  "t = [] \<or> \<not> is_space (last t) \<Longrightarrow> re_sub_comma (py_rstrip (re_sub_comma t)) = re_sub_comma t"
proof (induction "length t" arbitrary: t rule: less_induct)
  case less
  show ?case
  proof (cases t rule: run_cases)
    case spaces
    have "t = []"
    proof (rule ccontr)
      assume "t \<noteq> []"
      with less.prems have "\<not> is_space (last t)" by simp
      moreover have "last t \<in> set t" using \<open>t \<noteq> []\<close> by simp
      ultimately show False using spaces by blast
    qed
    then show ?thesis by (simp add: py_rstrip_Nil)
  next
    case (comma w zs)
    let ?r = "dropWhile is_space zs"
    have len: "length ?r < length t"
      using comma(1) length_dropWhile_le [of is_space zs] by simp
    have 1: "re_sub_comma t = '', '' @ re_sub_comma ?r"
      unfolding comma(1) using comma(2) by (rule re_sub_comma_comma)
    show ?thesis
    proof (cases "?r = []")
      case True
      have "py_rstrip ('', '') = '',''"
        using py_rstrip_barrier [of "CHR '',''" "[]" "'' ''"]
        by (simp add: not_space_simps py_rstrip_def space_blank)
      moreover have "re_sub_comma '','' = '', ''"
        using re_sub_comma_comma [of "[]" "[]"] by simp
      ultimately show ?thesis using 1 True by simp
    next
      case False
      then have h: "\<not> is_space (hd ?r)" by (rule hd_dropWhile)
      have rl: "?r = [] \<or> \<not> is_space (last ?r)"
      proof -
        have "zs = takeWhile is_space zs @ ?r" by simp
        then have "t = (w @ CHR '','' # takeWhile is_space zs) @ ?r" using comma(1) by simp
        then have "last t = last ?r" using False by (metis last_appendR)
        with less.prems False comma(1) show ?thesis by auto
      qed
      have ih: "re_sub_comma (py_rstrip (re_sub_comma ?r)) = re_sub_comma ?r"
        using len rl by (rule less.hyps)
      from re_sub_comma_head [OF False h] obtain e X where X: "re_sub_comma ?r = e # X" "\<not> is_space e"
        by (cases "re_sub_comma ?r") auto
      have "py_rstrip ('', '' @ e # X) = '', '' @ e # py_rstrip X"
        using py_rstrip_barrier [of e "'', ''" X] X(2) by simp
      moreover have "py_rstrip (e # X) = e # py_rstrip X"
        using py_rstrip_barrier [of e "[]" X] X(2) by simp
      ultimately have 2: "py_rstrip (re_sub_comma t) = '', '' @ py_rstrip (re_sub_comma ?r)"
        and 3: "py_rstrip (re_sub_comma ?r) = e # py_rstrip X"
        using 1 X(1) by simp_all
      have "re_sub_comma ('', '' @ py_rstrip (re_sub_comma ?r))
          = '', '' @ re_sub_comma (dropWhile is_space (CHR '' '' # py_rstrip (re_sub_comma ?r)))"
        using re_sub_comma_comma [of "[]" "CHR '' '' # py_rstrip (re_sub_comma ?r)"] by simp
      also have "dropWhile is_space (CHR '' '' # py_rstrip (re_sub_comma ?r)) = py_rstrip (re_sub_comma ?r)"
        using 3 X(2) by (simp add: space_blank)
      finally show ?thesis using 1 2 ih by simp
    qed
  next
    case (other w d zs)
    have len: "length zs < length t" using other(1) by simp
    have zl: "zs = [] \<or> \<not> is_space (last zs)" using less.prems other(1) by auto
    have ih: "re_sub_comma (py_rstrip (re_sub_comma zs)) = re_sub_comma zs"
      using len zl by (rule less.hyps)
    have 1: "re_sub_comma t = w @ d # re_sub_comma zs"
      unfolding other(1) using other(2,3,4) by (rule re_sub_comma_run)
    have 2: "py_rstrip (w @ d # re_sub_comma zs) = w @ d # py_rstrip (re_sub_comma zs)"
      using other(3) by (rule py_rstrip_barrier)
    have "re_sub_comma (w @ d # py_rstrip (re_sub_comma zs))
        = w @ d # re_sub_comma (py_rstrip (re_sub_comma zs))"
      using other(2,3,4) by (rule re_sub_comma_run)
    with 1 2 ih show ?thesis by simp
  qed
qed

lemma remove_newlines_none: "newline \<notin> set s \<Longrightarrow> remove_newlines s = s"
  by (induction s) (auto simp: remove_newlines_def)

lemma py_strip_props:
  "py_strip s = [] \<or> \<not> is_space (last (py_strip s))"
  "py_strip s = [] \<or> \<not> is_space (hd (py_strip s))"
  "set (py_strip s) \<subseteq> set s"
proof -
  show "py_strip s = [] \<or> \<not> is_space (last (py_strip s))"
    unfolding py_strip_rstrip by (rule py_rstrip_last)
  have "dropWhile is_space s = [] \<or> \<not> is_space (hd (dropWhile is_space s))"
    using hd_dropWhile [of is_space s] by blast
  then show "py_strip s = [] \<or> \<not> is_space (hd (py_strip s))"
    unfolding py_strip_rstrip by (rule py_rstrip_head)
  have "set (dropWhile is_space s) \<subseteq> set s" by (auto dest: set_dropWhileD)
  with py_rstrip_set [of "dropWhile is_space s"] show "set (py_strip s) \<subseteq> set s"
    unfolding py_strip_rstrip by blast
qed

lemma single_line_arguments_set:
  "set (single_line_arguments a) \<subseteq> (set a - {newline}) \<union> {CHR '','', CHR '' ''}"
proof -
  have "set (remove_newlines a) = set a - {newline}" by (auto simp: remove_newlines_def)
  with py_strip_props(3) [of "remove_newlines a"]
    re_sub_comma_set [of "py_strip (remove_newlines a)"]
  show ?thesis unfolding single_line_arguments_def by blast
qed

lemma single_line_arguments_no_newline: "newline \<notin> set (single_line_arguments a)"
  using single_line_arguments_set [of a] by (auto simp: newline_def)

lemma single_line_arguments_paren:
  "CHR '')'' \<notin> set a \<Longrightarrow> CHR '')'' \<notin> set (single_line_arguments a)"
  using single_line_arguments_set [of a] by auto

lemma single_line_arguments_idem:
  "single_line_arguments (single_line_arguments a) = single_line_arguments a"
proof -
  let ?t = "py_strip (remove_newlines a)"
  let ?z = "re_sub_comma ?t"
  have z: "single_line_arguments a = ?z" by (simp add: single_line_arguments_def)
  have "newline \<notin> set ?z" using single_line_arguments_no_newline [of a] z by simp
  then have 1: "remove_newlines ?z = ?z" by (rule remove_newlines_none)
  have "?z = [] \<or> \<not> is_space (hd ?z)"
    using py_strip_props(2) [of "remove_newlines a"] re_sub_comma_head [of ?t]
    by (cases "?t = []") auto
  then have "dropWhile is_space ?z = ?z" by (cases ?z) auto
  then have 2: "py_strip ?z = py_rstrip ?z" by (simp add: py_strip_rstrip)
  have 3: "re_sub_comma (py_rstrip ?z) = ?z"
    using py_strip_props(1) [of "remove_newlines a"] by (rule re_sub_comma_rstrip)
  show ?thesis unfolding z unfolding single_line_arguments_def 1 2 3 ..
qed

lemma single_line_arguments_fixed:
  assumes "single_line_arguments a = a"
  shows "newline \<notin> set a" "re_sub_comma a = a"
proof -
  show "newline \<notin> set a" using single_line_arguments_no_newline [of a] assms by simp
  have "re_sub_comma (single_line_arguments a) = single_line_arguments a"
    by (simp add: single_line_arguments_def re_sub_comma_idem)
  with assms show "re_sub_comma a = a" by simp
qed

lemma reformat_function_unfold:
  "reformat_function pre arguments = pre @ single_line_arguments arguments @ ''):''"
  by (simp add: reformat_function_def single_line_arguments_def Let_def)

subsection \<open>The two patterns\<close>

lemma first_occurrence_unique:
  assumes "d \<notin> set u" "d \<notin> set u'" "u @ d # v = u' @ d # v'"
  shows "u = u' \<and> v = v'"
  using assms
proof (induction u arbitrary: u')
  case Nil
  then show ?case by (cases u') auto
next
  case (Cons c u)
  then show ?case by (cases u') auto
qed

lemma word_return: "\<forall>c\<in>set ''return''. is_word c"
  by code_simp

lemma not_space_return: "\<forall>c\<in>set ''return''. \<not> is_space c"
  by code_simp

lemma not_space_def: "\<forall>c\<in>set ''def''. \<not> is_space c"
  by code_simp

lemma def_header_no_paren:
  assumes "def_header u"
  shows "CHR ''('' \<notin> set u" "CHR '')'' \<notin> set u"
proof -
  from assms obtain w w2 n w3 where u: "u = w @ ''def'' @ w2 @ n @ w3"
    and w: "\<forall>c\<in>set w. is_space c" "\<forall>c\<in>set w2. is_space c" "\<forall>c\<in>set w3. is_space c"
    and n: "\<forall>c\<in>set n. is_word c"
    unfolding def_header_def by blast
  have "set u = set w \<union> set ''def'' \<union> set w2 \<union> set n \<union> set w3" unfolding u by auto
  moreover have "CHR ''('' \<notin> set w" "CHR ''('' \<notin> set w2" "CHR ''('' \<notin> set w3" "CHR ''('' \<notin> set n"
    "CHR '')'' \<notin> set w" "CHR '')'' \<notin> set w2" "CHR '')'' \<notin> set w3" "CHR '')'' \<notin> set n"
    using w n not_space_simps(1,2) not_word_simps(1,2) by blast+
  moreover have "CHR ''('' \<notin> set ''def''" "CHR '')'' \<notin> set ''def''" by simp_all
  ultimately show "CHR ''('' \<notin> set u" "CHR '')'' \<notin> set u" by blast+
qed

lemma return_header_no_paren:
  assumes "return_header u"
  shows "CHR ''('' \<notin> set u" "CHR '')'' \<notin> set u"
proof -
  from assms obtain w w2 where u: "u = w @ ''return'' @ w2"
    and w: "\<forall>c\<in>set w. is_space c" "\<forall>c\<in>set w2. is_space c"
    unfolding return_header_def by blast
  have "set u = set w \<union> set ''return'' \<union> set w2" unfolding u by auto
  moreover have "CHR ''('' \<notin> set w" "CHR ''('' \<notin> set w2" "CHR '')'' \<notin> set w" "CHR '')'' \<notin> set w2"
    using w not_space_simps(1,2) by blast+
  moreover have "CHR ''('' \<notin> set ''return''" "CHR '')'' \<notin> set ''return''" by simp_all
  ultimately show "CHR ''('' \<notin> set u" "CHR '')'' \<notin> set u" by blast+
qed

lemma take_append_diff: "take (length (x @ y) - length y) (x @ y) = x"
  by simp

lemma function_pattern_match_parts:
  assumes "function_pattern_match s = Some (pre, a, r)"
  defines "s1 \<equiv> dropWhile is_space s"
  defines "s2 \<equiv> drop 3 s1"
  defines "s3 \<equiv> dropWhile is_space s2"
  defines "s5 \<equiv> dropWhile is_space (dropWhile is_word s3)"
  defines "s6 \<equiv> drop 1 s5"
  defines "s7 \<equiv> dropWhile (\<lambda>c. c \<noteq> CHR '')'') s6"
  shows "prefix ''def'' s1" "s2 \<noteq> []" "is_space (hd s2)" "s3 \<noteq> []" "is_word (hd s3)"
    "prefix ''('' s5" "prefix ''):'' s7" "pre = take (length s - length s6) s"
    "a = takeWhile (\<lambda>c. c \<noteq> CHR '')'') s6" "r = drop 2 s7"
proof -
  have "function_pattern_match s =
      (if \<not> prefix ''def'' s1 then None else
       if s2 = [] \<or> \<not> is_space (hd s2) then None else
       if s3 = [] \<or> \<not> is_word (hd s3) then None else
       if \<not> prefix ''('' s5 then None else
       if \<not> prefix ''):'' s7 then None
       else Some (take (length s - length s6) s, takeWhile (\<lambda>c. c \<noteq> CHR '')'') s6, drop 2 s7))"
    unfolding function_pattern_match_def Let_def s1_def s2_def s3_def s5_def s6_def s7_def ..
  with assms(1) have "prefix ''def'' s1 \<and> s2 \<noteq> [] \<and> is_space (hd s2) \<and> s3 \<noteq> [] \<and> is_word (hd s3)
    \<and> prefix ''('' s5 \<and> prefix ''):'' s7 \<and> pre = take (length s - length s6) s
    \<and> a = takeWhile (\<lambda>c. c \<noteq> CHR '')'') s6 \<and> r = drop 2 s7"
    by (simp split: if_splits)
  then show "prefix ''def'' s1" "s2 \<noteq> []" "is_space (hd s2)" "s3 \<noteq> []" "is_word (hd s3)"
    "prefix ''('' s5" "prefix ''):'' s7" "pre = take (length s - length s6) s"
    "a = takeWhile (\<lambda>c. c \<noteq> CHR '')'') s6" "r = drop 2 s7"
    by blast+
qed

lemma function_pattern_match_shape:
  assumes "function_pattern_match s = Some (pre, a, r)"
  shows "\<exists>u. def_header u \<and> pre = u @ ''('' \<and> CHR '')'' \<notin> set a \<and> s = pre @ a @ ''):'' @ r"
proof -
  define s1 where "s1 = dropWhile is_space s"
  define s2 where "s2 = drop 3 s1"
  define s3 where "s3 = dropWhile is_space s2"
  define s4 where "s4 = dropWhile is_word s3"
  define s5 where "s5 = dropWhile is_space s4"
  define s6 where "s6 = drop 1 s5"
  define s7 where "s7 = dropWhile (\<lambda>c. c \<noteq> CHR '')'') s6"
  have p: "prefix ''def'' s1" "s2 \<noteq> []" "is_space (hd s2)" "s3 \<noteq> []" "is_word (hd s3)"
    "prefix ''('' s5" "prefix ''):'' s7" "pre = take (length s - length s6) s"
    "a = takeWhile (\<lambda>c. c \<noteq> CHR '')'') s6" "r = drop 2 s7"
    unfolding s1_def s2_def s3_def s4_def s5_def s6_def s7_def
    by (rule function_pattern_match_parts [OF assms])+
  define w where "w = takeWhile is_space s"
  define w2 where "w2 = takeWhile is_space s2"
  define n where "n = takeWhile is_word s3"
  define w3 where "w3 = takeWhile is_space s4"
  have e1: "s = w @ s1" by (simp add: w_def s1_def)
  from p(1) obtain q2 where "s1 = ''def'' @ q2" unfolding prefix_def by blast
  then have e2: "s1 = ''def'' @ s2" by (simp add: s2_def)
  have e3: "s2 = w2 @ s3" by (simp add: w2_def s3_def)
  have e4: "s3 = n @ s4" by (simp add: n_def s4_def)
  have e5: "s4 = w3 @ s5" by (simp add: w3_def s5_def)
  from p(6) obtain q6 where "s5 = ''('' @ q6" unfolding prefix_def by blast
  then have e6: "s5 = ''('' @ s6" by (simp add: s6_def)
  have e7: "s6 = a @ s7" by (simp add: p(9) s7_def)
  from p(7) obtain q8 where "s7 = ''):'' @ q8" unfolding prefix_def by blast
  then have e8: "s7 = ''):'' @ r" by (simp add: p(10))
  define u where "u = w @ ''def'' @ w2 @ n @ w3"
  have "s = w @ ''def'' @ w2 @ n @ w3 @ ''('' @ s6"
    by (subst e1, subst e2, subst e3, subst e4, subst e5, subst e6) simp
  then have s: "s = (u @ ''('') @ s6" by (simp add: u_def)
  have w2ne: "w2 \<noteq> []" using p(2,3) by (cases s2) (auto simp: w2_def)
  have nne: "n \<noteq> []" using p(4,5) by (cases s3) (auto simp: n_def)
  have sp: "\<forall>c\<in>set w. is_space c" "\<forall>c\<in>set w2. is_space c" "\<forall>c\<in>set w3. is_space c"
    "\<forall>c\<in>set n. is_word c"
    unfolding w_def w2_def w3_def n_def by (auto dest: set_takeWhileD)
  have "def_header u"
    unfolding def_header_def using w2ne nne sp u_def by blast
  moreover have "pre = u @ ''(''"
  proof -
    have "pre = take (length ((u @ ''('') @ s6) - length s6) ((u @ ''('') @ s6)"
      using p(8) s by simp
    then show ?thesis unfolding take_append_diff .
  qed
  moreover have "CHR '')'' \<notin> set a" unfolding p(9) by (auto dest: set_takeWhileD)
  moreover have "s = (u @ ''('') @ a @ ''):'' @ r" using s e7 e8 by simp
  ultimately show ?thesis by auto
qed

lemma dropWhile_spaces_append:
  "\<forall>c\<in>set w. is_space c \<Longrightarrow> dropWhile is_space (w @ ys) = dropWhile is_space ys"
  by (simp add: dropWhile_append2)

lemma function_pattern_match_intro:
  assumes "def_header u" "CHR '')'' \<notin> set a"
  shows "function_pattern_match (u @ ''('' @ a @ ''):'' @ r) = Some (u @ ''('', a, r)"
proof -
  from assms(1) obtain w w2 n w3 where u: "u = w @ ''def'' @ w2 @ n @ w3"
    and w: "\<forall>c\<in>set w. is_space c" "\<forall>c\<in>set w2. is_space c" "\<forall>c\<in>set w3. is_space c"
    and n: "\<forall>c\<in>set n. is_word c" and ne: "w2 \<noteq> []" "n \<noteq> []"
    unfolding def_header_def by blast
  define s where "s = u @ ''('' @ a @ ''):'' @ r"
  define s6 where "s6 = a @ ''):'' @ r"
  have d1: "dropWhile is_space s = ''def'' @ w2 @ n @ w3 @ ''('' @ s6"
    unfolding s_def u s6_def using w(1) not_space_simps by (simp add: dropWhile_append2)
  have d2: "drop 3 (''def'' @ w2 @ n @ w3 @ ''('' @ s6) = w2 @ n @ w3 @ ''('' @ s6" by simp
  have h2: "w2 @ n @ w3 @ ''('' @ s6 \<noteq> []" "is_space (hd (w2 @ n @ w3 @ ''('' @ s6))"
    using ne(1) w(2) by (cases w2; simp)+
  from ne(2) n obtain c n' where nc: "n = c # n'" "is_word c" by (cases n) auto
  then have nsp: "\<not> is_space c" using space_not_word by blast
  have d3: "dropWhile is_space (w2 @ n @ w3 @ ''('' @ s6) = n @ w3 @ ''('' @ s6"
    using w(2) nc(1) nsp by (simp add: dropWhile_append2)
  have h3: "n @ w3 @ ''('' @ s6 \<noteq> []" "is_word (hd (n @ w3 @ ''('' @ s6))"
    using nc by simp_all
  have nw: "\<forall>c\<in>set w3. \<not> is_word c" using w(3) space_not_word by blast
  have d4: "dropWhile is_word (n @ w3 @ ''('' @ s6) = w3 @ ''('' @ s6"
  proof (cases w3)
    case Nil
    then show ?thesis using n not_word_simps by (simp add: dropWhile_append2)
  next
    case (Cons d w3')
    then have "\<not> is_word d" using nw by simp
    then show ?thesis using n Cons by (simp add: dropWhile_append2)
  qed
  have d5: "dropWhile is_space (w3 @ ''('' @ s6) = ''('' @ s6"
    using w(3) not_space_simps by (simp add: dropWhile_append2)
  have d6: "drop 1 (''('' @ s6) = s6" by simp
  have d7: "takeWhile (\<lambda>c. c \<noteq> CHR '')'') s6 = a" "dropWhile (\<lambda>c. c \<noteq> CHR '')'') s6 = ''):'' @ r"
  proof -
    from assms(2) have "\<forall>c\<in>set a. c \<noteq> CHR '')''" by blast
    then show "takeWhile (\<lambda>c. c \<noteq> CHR '')'') s6 = a" "dropWhile (\<lambda>c. c \<noteq> CHR '')'') s6 = ''):'' @ r"
      unfolding s6_def by (simp_all add: takeWhile_append2 dropWhile_append2)
  qed
  have d8: "take (length s - length s6) s = u @ ''(''"
  proof -
    have "s = (u @ ''('') @ s6" by (simp add: s_def s6_def)
    then show ?thesis using take_append_diff [of "u @ ''(''" s6] by simp
  qed
  have "function_pattern_match s = Some (u @ ''('', a, r)"
    unfolding function_pattern_match_def Let_def d1 d2 d3 d4 d5 d6 d7 d8
    using h2 h3 by simp
  then show ?thesis unfolding s_def .
qed

lemma function_pattern_match_iff:
  "function_pattern_match s = Some (pre, a, r)
   \<longleftrightarrow> (\<exists>u. def_header u \<and> pre = u @ ''('' \<and> CHR '')'' \<notin> set a \<and> s = pre @ a @ ''):'' @ r)"
proof
  assume "function_pattern_match s = Some (pre, a, r)"
  then show "\<exists>u. def_header u \<and> pre = u @ ''('' \<and> CHR '')'' \<notin> set a \<and> s = pre @ a @ ''):'' @ r"
    by (rule function_pattern_match_shape)
next
  assume "\<exists>u. def_header u \<and> pre = u @ ''('' \<and> CHR '')'' \<notin> set a \<and> s = pre @ a @ ''):'' @ r"
  then obtain u where "def_header u" "pre = u @ ''(''" "CHR '')'' \<notin> set a" "s = pre @ a @ ''):'' @ r"
    by blast
  with function_pattern_match_intro [of u a r] show "function_pattern_match s = Some (pre, a, r)"
    by simp
qed

lemma return_pattern_match_parts:
  assumes "return_pattern_match s = Some (x, r)"
  defines "s1 \<equiv> dropWhile is_space s"
  defines "s3 \<equiv> dropWhile is_space (drop 6 s1)"
  defines "rest \<equiv> dropWhile (\<lambda>c. c \<noteq> CHR '')'') (drop 1 s3)"
  shows "prefix ''return'' s1" "prefix ''('' s3" "rest \<noteq> []"
    "x = take (length s - length rest + 1) s" "r = drop 1 rest"
proof -
  have "return_pattern_match s =
     (if \<not> prefix ''return'' s1 then None else
      if \<not> prefix ''('' s3 then None else
      if rest = [] then None
      else Some (take (length s - length rest + 1) s, drop 1 rest))"
    unfolding return_pattern_match_def Let_def s1_def s3_def rest_def ..
  with assms(1) have "prefix ''return'' s1 \<and> prefix ''('' s3 \<and> rest \<noteq> []
    \<and> x = take (length s - length rest + 1) s \<and> r = drop 1 rest"
    by (simp split: if_splits)
  then show "prefix ''return'' s1" "prefix ''('' s3" "rest \<noteq> []"
    "x = take (length s - length rest + 1) s" "r = drop 1 rest"
    by blast+
qed

lemma take_append_diff1: "take (length (x @ c # y) - length (c # y) + 1) (x @ c # y) = x @ [c]"
  by simp

lemma return_pattern_match_shape:
  assumes "return_pattern_match s = Some (x, r)"
  shows "\<exists>u b. return_header u \<and> CHR '')'' \<notin> set b \<and> x = u @ ''('' @ b @ '')'' \<and> s = x @ r"
proof -
  define s1 where "s1 = dropWhile is_space s"
  define s2 where "s2 = drop 6 s1"
  define s3 where "s3 = dropWhile is_space s2"
  define s4 where "s4 = drop 1 s3"
  define rest where "rest = dropWhile (\<lambda>c. c \<noteq> CHR '')'') s4"
  have p: "prefix ''return'' s1" "prefix ''('' s3" "rest \<noteq> []"
    "x = take (length s - length rest + 1) s" "r = drop 1 rest"
    unfolding s1_def s2_def s3_def s4_def rest_def
    by (rule return_pattern_match_parts [OF assms])+
  define w where "w = takeWhile is_space s"
  define w2 where "w2 = takeWhile is_space s2"
  define b where "b = takeWhile (\<lambda>c. c \<noteq> CHR '')'') s4"
  have e1: "s = w @ s1" by (simp add: w_def s1_def)
  from p(1) obtain q2 where "s1 = ''return'' @ q2" unfolding prefix_def by blast
  then have e2: "s1 = ''return'' @ s2" by (simp add: s2_def)
  have e3: "s2 = w2 @ s3" by (simp add: w2_def s3_def)
  from p(2) obtain q4 where "s3 = ''('' @ q4" unfolding prefix_def by blast
  then have e4: "s3 = ''('' @ s4" by (simp add: s4_def)
  have e5: "s4 = b @ rest" by (simp add: b_def rest_def)
  have "hd rest = CHR '')''" using p(3) hd_dropWhile [of "\<lambda>c. c \<noteq> CHR '')''" s4]
    unfolding rest_def by blast
  with p(3) p(5) have e6: "rest = CHR '')'' # r" by (cases rest) auto
  define u where "u = w @ ''return'' @ w2"
  have "s = w @ ''return'' @ w2 @ ''('' @ b @ rest"
    by (subst e1, subst e2, subst e3, subst e4, subst e5) simp
  then have s: "s = (u @ ''('' @ b) @ CHR '')'' # r" by (simp add: u_def e6)
  have sp: "\<forall>c\<in>set w. is_space c" "\<forall>c\<in>set w2. is_space c"
    unfolding w_def w2_def by (auto dest: set_takeWhileD)
  have "return_header u"
    unfolding return_header_def using sp u_def by blast
  moreover have "CHR '')'' \<notin> set b" unfolding b_def by (auto dest: set_takeWhileD)
  moreover have x: "x = u @ ''('' @ b @ '')''"
  proof -
    have "x = take (length ((u @ ''('' @ b) @ CHR '')'' # r) - length (CHR '')'' # r) + 1)
                ((u @ ''('' @ b) @ CHR '')'' # r)"
      using p(4) s e6 by simp
    then show ?thesis unfolding take_append_diff1 by simp
  qed
  moreover have "s = x @ r" using s x by simp
  ultimately show ?thesis by blast
qed

lemma return_pattern_match_intro:
  assumes "return_header u" "CHR '')'' \<notin> set b"
  shows "return_pattern_match (u @ ''('' @ b @ '')'' @ r) = Some (u @ ''('' @ b @ '')'', r)"
proof -
  from assms(1) obtain w w2 where u: "u = w @ ''return'' @ w2"
    and w: "\<forall>c\<in>set w. is_space c" "\<forall>c\<in>set w2. is_space c"
    unfolding return_header_def by blast
  define s where "s = u @ ''('' @ b @ '')'' @ r"
  define s4 where "s4 = b @ '')'' @ r"
  have d1: "dropWhile is_space s = ''return'' @ w2 @ ''('' @ s4"
    unfolding s_def u s4_def using w(1) not_space_simps by (simp add: dropWhile_append2)
  have d2: "drop 6 (''return'' @ w2 @ ''('' @ s4) = w2 @ ''('' @ s4" by simp
  have d3: "dropWhile is_space (w2 @ ''('' @ s4) = ''('' @ s4"
    using w(2) not_space_simps by (simp add: dropWhile_append2)
  have d4: "drop 1 (''('' @ s4) = s4" by simp
  have d5: "dropWhile (\<lambda>c. c \<noteq> CHR '')'') s4 = CHR '')'' # r"
  proof -
    from assms(2) have "\<forall>c\<in>set b. c \<noteq> CHR '')''" by blast
    then show ?thesis unfolding s4_def by (simp add: dropWhile_append2)
  qed
  have d6: "take (length s - length (CHR '')'' # r) + 1) s = u @ ''('' @ b @ '')''"
  proof -
    have "s = (u @ ''('' @ b) @ CHR '')'' # r" by (simp add: s_def)
    then show ?thesis using take_append_diff1 [of "u @ ''('' @ b" "CHR '')''" r] by simp
  qed
  have "return_pattern_match s = Some (u @ ''('' @ b @ '')'', r)"
    unfolding return_pattern_match_def Let_def d1 d2 d3 d4 d5 d6 by simp
  then show ?thesis unfolding s_def .
qed

lemma return_pattern_match_iff:
  "return_pattern_match s = Some (x, r)
   \<longleftrightarrow> (\<exists>u b. return_header u \<and> CHR '')'' \<notin> set b \<and> x = u @ ''('' @ b @ '')'' \<and> s = x @ r)"
proof
  assume "return_pattern_match s = Some (x, r)"
  then show "\<exists>u b. return_header u \<and> CHR '')'' \<notin> set b \<and> x = u @ ''('' @ b @ '')'' \<and> s = x @ r"
    by (rule return_pattern_match_shape)
next
  assume "\<exists>u b. return_header u \<and> CHR '')'' \<notin> set b \<and> x = u @ ''('' @ b @ '')'' \<and> s = x @ r"
  then obtain u b where "return_header u" "CHR '')'' \<notin> set b" "x = u @ ''('' @ b @ '')''" "s = x @ r"
    by blast
  with return_pattern_match_intro [of u b r] show "return_pattern_match s = Some (x, r)"
    by simp
qed

subsection \<open>Steps of the two scans\<close>

lemma function_pattern_match_Nil: "function_pattern_match [] = None"
  by (simp add: function_pattern_match_def)

lemma return_pattern_match_Nil: "return_pattern_match [] = None"
  by (simp add: return_pattern_match_def)

lemma function_pattern_sub_match:
  assumes "function_pattern_match s = Some (pre, a, r)"
  shows "function_pattern_sub True s
       = pre @ single_line_arguments a @ ''):'' @ function_pattern_sub False r"
proof (cases s)
  case Nil
  with assms show ?thesis by (simp add: function_pattern_match_Nil)
next
  case (Cons c cs)
  with assms show ?thesis by (simp add: reformat_function_unfold)
qed

lemma function_pattern_sub_copy:
  assumes "bol \<longrightarrow> function_pattern_match (c # cs) = None"
  shows "function_pattern_sub bol (c # cs) = c # function_pattern_sub (c = newline) cs"
  using assms by (cases bol) simp_all

lemma return_pattern_sub_match:
  assumes "return_pattern_match s = Some (x, r)"
  shows "return_pattern_sub True s = reformat_return x @ return_pattern_sub False r"
proof (cases s)
  case Nil
  with assms show ?thesis by (simp add: return_pattern_match_Nil)
next
  case (Cons c cs)
  with assms show ?thesis by simp
qed

lemma return_pattern_sub_copy:
  assumes "bol \<longrightarrow> return_pattern_match (c # cs) = None"
  shows "return_pattern_sub bol (c # cs) = c # return_pattern_sub (c = newline) cs"
  using assms by (cases bol) simp_all

declare function_pattern_sub.simps(2) [simp del]
declare return_pattern_sub.simps(2) [simp del]

lemma function_pattern_sub_False:
  "function_pattern_sub False (c # cs) = c # function_pattern_sub (c = newline) cs"
  by (simp add: function_pattern_sub_copy)

lemma return_pattern_sub_False:
  "return_pattern_sub False (c # cs) = c # return_pattern_sub (c = newline) cs"
  by (simp add: return_pattern_sub_copy)

lemma function_pattern_sub_cases:
  obtains (empty) "s = []"
  | (matched) pre a r where "bol" "function_pattern_match s = Some (pre, a, r)"
      "function_pattern_sub bol s
         = pre @ single_line_arguments a @ ''):'' @ function_pattern_sub False r"
      "length r < length s"
  | (copied) c cs where "s = c # cs" "bol \<longrightarrow> function_pattern_match s = None"
      "function_pattern_sub bol s = c # function_pattern_sub (c = newline) cs"
proof (cases s)
  case Nil
  then show ?thesis by (rule empty)
next
  case (Cons c cs)
  show ?thesis
  proof (cases "if bol then function_pattern_match s else None")
    case (Some t)
    obtain pre a r where t: "t = (pre, a, r)" by (cases t)
    from Some t have b: "bol" and m: "function_pattern_match s = Some (pre, a, r)"
      by (simp_all split: if_splits)
    from b function_pattern_sub_match [OF m] function_pattern_match_shorter [OF m] m
    show ?thesis by (intro matched [of pre a r]) simp_all
  next
    case None
    then have n: "bol \<longrightarrow> function_pattern_match (c # cs) = None"
      using Cons by (simp split: if_splits)
    from function_pattern_sub_copy [OF n] n Cons show ?thesis
      by (intro copied [of c cs]) simp_all
  qed
qed

lemma return_pattern_sub_cases:
  obtains (empty) "s = []"
  | (matched) x r where "bol" "return_pattern_match s = Some (x, r)"
      "return_pattern_sub bol s = reformat_return x @ return_pattern_sub False r"
      "length r < length s"
  | (copied) c cs where "s = c # cs" "bol \<longrightarrow> return_pattern_match s = None"
      "return_pattern_sub bol s = c # return_pattern_sub (c = newline) cs"
proof (cases s)
  case Nil
  then show ?thesis by (rule empty)
next
  case (Cons c cs)
  show ?thesis
  proof (cases "if bol then return_pattern_match s else None")
    case (Some t)
    obtain x r where t: "t = (x, r)" by (cases t)
    from Some t have b: "bol" and m: "return_pattern_match s = Some (x, r)"
      by (simp_all split: if_splits)
    from b return_pattern_sub_match [OF m] return_pattern_match_shorter [OF m] m
    show ?thesis by (intro matched [of x r]) simp_all
  next
    case None
    then have n: "bol \<longrightarrow> return_pattern_match (c # cs) = None"
      using Cons by (simp split: if_splits)
    from return_pattern_sub_copy [OF n] n Cons show ?thesis
      by (intro copied [of c cs]) simp_all
  qed
qed

subsection \<open>The first closing parenthesis\<close>

lemma closes_Cons:
  "closes (c # y) = (if c = CHR '')'' then prefix '':'' y else closes y)"
  by (simp add: closes_def)

lemma closes_append:
  assumes "CHR '')'' \<notin> set a"
  shows "closes (a @ y) = closes y"
proof -
  from assms have "\<forall>c\<in>set a. c \<noteq> CHR '')''" by blast
  then show ?thesis by (simp add: closes_def dropWhile_append2)
qed

lemma closes_intro: "CHR '')'' \<notin> set a \<Longrightarrow> closes (a @ ''):'' @ r)"
  by (simp add: closes_append closes_Cons)

lemma closes_shape:
  assumes "closes y"
  shows "\<exists>a r. CHR '')'' \<notin> set a \<and> y = a @ ''):'' @ r"
proof -
  define a where "a = takeWhile (\<lambda>c. c \<noteq> CHR '')'') y"
  define z where "z = dropWhile (\<lambda>c. c \<noteq> CHR '')'') y"
  from assms obtain r where "z = ''):'' @ r" unfolding closes_def z_def prefix_def by blast
  moreover have "y = a @ z" by (simp add: a_def z_def)
  moreover have "CHR '')'' \<notin> set a" unfolding a_def by (auto dest: set_takeWhileD)
  ultimately show ?thesis by blast
qed

lemma function_pattern_sub_colon:
  "prefix '':'' (function_pattern_sub False z) = prefix '':'' z"
  by (cases z) (simp_all add: function_pattern_sub_False)

lemma return_pattern_sub_colon:
  "prefix '':'' (return_pattern_sub False z) = prefix '':'' z"
  by (cases z) (simp_all add: return_pattern_sub_False)

lemma closes_function_pattern_sub: "closes (function_pattern_sub bol y) = closes y"
proof (induction y arbitrary: bol rule: length_induct)
  case (1 y)
  show ?case
  proof (cases rule: function_pattern_sub_cases [where s = y and bol = bol])
    case empty
    then show ?thesis by simp
  next
    case (matched pre a r)
    from function_pattern_match_shape [OF matched(2)] obtain u
      where u: "def_header u" "pre = u @ ''(''" "CHR '')'' \<notin> set a" "y = pre @ a @ ''):'' @ r"
      by blast
    from def_header_no_paren(2) [OF u(1)] u(2) have np: "CHR '')'' \<notin> set pre" by simp
    have "closes y"
      using closes_intro [of "pre @ a" r] np u(3) u(4) by simp
    moreover have "closes (function_pattern_sub bol y)"
      unfolding matched(3)
      using closes_intro [of "pre @ single_line_arguments a" "function_pattern_sub False r"]
        np single_line_arguments_paren [OF u(3)] by simp
    ultimately show ?thesis by simp
  next
    case (copied c cs)
    from copied(1,3) have e: "function_pattern_sub bol (c # cs) = c # function_pattern_sub (c = newline) cs"
      by simp
    show ?thesis
    proof (cases "c = CHR '')''")
      case True
      then have "c \<noteq> newline" by (simp add: newline_def)
      with True show ?thesis unfolding copied(1) e
        by (simp add: closes_Cons function_pattern_sub_colon)
    next
      case False
      from 1 copied(1) have "closes (function_pattern_sub (c = newline) cs) = closes cs" by simp
      with False show ?thesis unfolding copied(1) e by (simp add: closes_Cons)
    qed
  qed
qed

lemma reformat_return_header:
  assumes "return_header u"
  shows "\<exists>u'. return_header u' \<and> reformat_return (u @ ''('' @ b @ '')'')
           = u' @ ''('' @ re_sub_comma (re_sub_newline b) @ '')''"
proof -
  from assms obtain w w2 where u: "u = w @ ''return'' @ w2"
    and w: "\<forall>c\<in>set w. is_space c" "\<forall>c\<in>set w2. is_space c"
    unfolding return_header_def by blast
  define u' where "u' = re_sub_newline w @ ''return'' @ re_sub_newline w2"
  have "return_header u'"
    unfolding return_header_def u'_def
    using re_sub_newline_spaces_props(1) [OF w(1)] re_sub_newline_spaces_props(1) [OF w(2)]
    by blast
  moreover have "reformat_return (u @ ''('' @ b @ '')'')
           = u' @ ''('' @ re_sub_comma (re_sub_newline b) @ '')''"
    using reformat_return_shape [OF w, of b] by (simp add: u u'_def)
  ultimately show ?thesis by blast
qed

lemma reformat_return_paren:
  assumes "CHR '')'' \<notin> set b"
  shows "CHR '')'' \<notin> set (re_sub_comma (re_sub_newline b))"
proof -
  have "set (re_sub_comma (re_sub_newline b)) \<subseteq> set (re_sub_newline b) \<union> {CHR '','', CHR '' ''}"
    by (rule re_sub_comma_set)
  moreover have "set (re_sub_newline b) \<subseteq> (set b - {newline}) \<union> {CHR '' ''}"
    by (rule re_sub_newline_set)
  ultimately have "set (re_sub_comma (re_sub_newline b)) \<subseteq> set b \<union> {CHR '','', CHR '' ''}"
    by blast
  with assms show ?thesis by auto
qed

lemma closes_return_pattern_sub: "closes (return_pattern_sub bol y) = closes y"
proof (induction y arbitrary: bol rule: length_induct)
  case (1 y)
  show ?case
  proof (cases rule: return_pattern_sub_cases [where s = y and bol = bol])
    case empty
    then show ?thesis by simp
  next
    case (matched x r)
    from return_pattern_match_shape [OF matched(2)] obtain u b
      where u: "return_header u" "CHR '')'' \<notin> set b" "x = u @ ''('' @ b @ '')''" "y = x @ r"
      by blast
    from reformat_return_header [OF u(1), of b] obtain u'
      where u': "return_header u'"
        "reformat_return x = u' @ ''('' @ re_sub_comma (re_sub_newline b) @ '')''"
      unfolding u(3) by blast
    have y: "y = (u @ ''('' @ b) @ CHR '')'' # r" using u(3,4) by simp
    have o: "return_pattern_sub bol y
        = (u' @ ''('' @ re_sub_comma (re_sub_newline b)) @ CHR '')'' # return_pattern_sub False r"
      unfolding matched(3) u'(2) by simp
    have "closes y = prefix '':'' r"
      using return_header_no_paren(2) [OF u(1)] u(2)
      by (subst y, subst closes_append) (simp_all add: closes_Cons)
    moreover have "closes (return_pattern_sub bol y) = prefix '':'' (return_pattern_sub False r)"
      using return_header_no_paren(2) [OF u'(1)] reformat_return_paren [OF u(2)]
      by (subst o, subst closes_append) (simp_all add: closes_Cons)
    ultimately show ?thesis by (simp add: return_pattern_sub_colon)
  next
    case (copied c cs)
    from copied(1,3) have e: "return_pattern_sub bol (c # cs) = c # return_pattern_sub (c = newline) cs"
      by simp
    show ?thesis
    proof (cases "c = CHR '')''")
      case True
      then have "c \<noteq> newline" by (simp add: newline_def)
      with True show ?thesis unfolding copied(1) e
        by (simp add: closes_Cons return_pattern_sub_colon)
    next
      case False
      from 1 copied(1) have "closes (return_pattern_sub (c = newline) cs) = closes cs" by simp
      with False show ?thesis unfolding copied(1) e by (simp add: closes_Cons)
    qed
  qed
qed

subsection \<open>Line starts\<close>

lemma line_start_Nil: "line_start bol [] = bol"
  by (simp add: line_start_def)

lemma line_start_Cons: "line_start bol (c # u) = line_start (c = newline) u"
  by (cases u) (simp_all add: line_start_def)

lemma line_start_append: "line_start bol (a @ b) = line_start (line_start bol a) b"
  by (cases b) (simp_all add: line_start_def)

lemma line_start_False: "line_start False u \<longleftrightarrow> u \<noteq> [] \<and> last u = newline"
  by (simp add: line_start_def)

lemma line_start_last: "u \<noteq> [] \<Longrightarrow> line_start bol u \<longleftrightarrow> last u = newline"
  by (simp add: line_start_def)

subsection \<open>Headers\<close>

lemma return_header_drop:
  assumes "return_header u"
  shows "\<exists>w2. dropWhile is_space u = ''return'' @ w2 \<and> (\<forall>c\<in>set w2. is_space c)"
proof -
  from assms obtain w w2 where u: "u = w @ ''return'' @ w2"
    and w: "\<forall>c\<in>set w. is_space c" "\<forall>c\<in>set w2. is_space c"
    unfolding return_header_def by blast
  have "dropWhile is_space u = ''return'' @ w2"
    unfolding u using w(1) not_space_simps by (simp add: dropWhile_append2)
  with w(2) show ?thesis by blast
qed

lemma def_header_drop:
  assumes "def_header u"
  shows "\<exists>w2 n w3. dropWhile is_space u = ''def'' @ w2 @ n @ w3
           \<and> u = takeWhile is_space u @ ''def'' @ w2 @ n @ w3
           \<and> w2 \<noteq> [] \<and> (\<forall>c\<in>set w2. is_space c)
           \<and> n \<noteq> [] \<and> (\<forall>c\<in>set n. is_word c) \<and> (\<forall>c\<in>set w3. is_space c)"
proof -
  from assms obtain w w2 n w3 where u: "u = w @ ''def'' @ w2 @ n @ w3"
    and w: "\<forall>c\<in>set w. is_space c" "\<forall>c\<in>set w2. is_space c" "\<forall>c\<in>set w3. is_space c"
    and n: "\<forall>c\<in>set n. is_word c" and ne: "w2 \<noteq> []" "n \<noteq> []"
    unfolding def_header_def by blast
  have d: "dropWhile is_space u = ''def'' @ w2 @ n @ w3"
    unfolding u using w(1) not_space_simps by (simp add: dropWhile_append2)
  have "u = takeWhile is_space u @ dropWhile is_space u" by simp
  then have "u = takeWhile is_space u @ ''def'' @ w2 @ n @ w3" unfolding d .
  with d w n ne show ?thesis by blast
qed

lemma header_clash:
  assumes "def_header u" "return_header u"
  shows False
proof -
  from def_header_drop [OF assms(1)] obtain w2 n w3
    where "dropWhile is_space u = ''def'' @ w2 @ n @ w3" by blast
  moreover from return_header_drop [OF assms(2)] obtain w2'
    where "dropWhile is_space u = ''return'' @ w2'" by blast
  ultimately show False by simp
qed

lemma return_header_nonspace:
  assumes "return_header u"
  shows "\<exists>c\<in>set u. \<not> is_space c"
proof -
  from assms obtain w w2 where u: "u = w @ ''return'' @ w2"
    unfolding return_header_def by blast
  then have "CHR ''r'' \<in> set u" by simp
  with not_space_simps show ?thesis by blast
qed

lemma return_header_Nil: "\<not> return_header []"
  using return_header_nonspace by fastforce

lemma def_header_Nil: "\<not> def_header []"
  by (simp add: def_header_def)

lemma return_header_prepend:
  assumes "\<forall>c\<in>set x1. is_space c" "return_header u"
  shows "return_header (x1 @ u)"
proof -
  from assms(2) obtain w w2 where u: "u = w @ ''return'' @ w2"
    and w: "\<forall>c\<in>set w. is_space c" "\<forall>c\<in>set w2. is_space c"
    unfolding return_header_def by blast
  have "x1 @ u = (x1 @ w) @ ''return'' @ w2" by (simp add: u)
  moreover have "\<forall>c\<in>set (x1 @ w). is_space c" using assms(1) w(1) by auto
  ultimately show ?thesis unfolding return_header_def using w(2) by blast
qed

lemma def_header_return:
  assumes "\<forall>c\<in>set w. is_space c" "w2 \<noteq> []" "\<forall>c\<in>set w2. is_space c" "return_header u"
  shows "def_header ((w @ ''def'' @ w2) @ u)"
proof -
  from assms(4) obtain wa wb where u: "u = wa @ ''return'' @ wb"
    and w: "\<forall>c\<in>set wa. is_space c" "\<forall>c\<in>set wb. is_space c"
    unfolding return_header_def by blast
  have "(w @ ''def'' @ w2) @ u = w @ ''def'' @ (w2 @ wa) @ ''return'' @ wb" by (simp add: u)
  moreover have "w2 @ wa \<noteq> []" using assms(2) by simp
  moreover have "\<forall>c\<in>set (w2 @ wa). is_space c" using assms(3) w(1) by auto
  moreover have "''return'' \<noteq> []" by simp
  ultimately show ?thesis
    unfolding def_header_def using assms(1) w(2) word_return by blast
qed

lemma dropWhile_last:
  assumes "dropWhile P xs \<noteq> []"
  shows "last (dropWhile P xs) = last xs"
proof -
  have "xs = takeWhile P xs @ dropWhile P xs" by simp
  then have "last xs = last (takeWhile P xs @ dropWhile P xs)" by simp
  also have "\<dots> = last (dropWhile P xs)" using assms by (rule last_appendR)
  finally show ?thesis by simp
qed

lemma dropWhile_nonspace:
  assumes "\<not> (\<forall>c\<in>set xs. P c)"
  shows "dropWhile P xs \<noteq> []"
  using assms by (simp add: dropWhile_eq_Nil_conv)

lemma return_header_split:
  assumes "return_header (x1 @ u')" "return_header u'" "x1 \<noteq> []" "is_space (last x1)"
  shows "\<forall>c\<in>set x1. is_space c"
proof (rule ccontr)
  assume n: "\<not> (\<forall>c\<in>set x1. is_space c)"
  define q where "q = dropWhile is_space x1"
  from n have qne: "q \<noteq> []" unfolding q_def by (rule dropWhile_nonspace)
  then have lq: "is_space (last q)" using assms(4) dropWhile_last [of is_space x1] unfolding q_def by simp
  have d: "dropWhile is_space (x1 @ u') = q @ u'"
    unfolding q_def using qne [unfolded q_def] by (rule dropWhile_nonempty_append)
  from return_header_drop [OF assms(1)] obtain w2
    where w2: "q @ u' = ''return'' @ w2" "\<forall>c\<in>set w2. is_space c" unfolding d by blast
  from w2(1) consider (long) t where "q = ''return'' @ t" "t @ u' = w2"
    | (short) t where "q @ t = ''return''" "u' = t @ w2"
    unfolding append_eq_append_conv2 by blast
  then show False
  proof cases
    case long
    then have "set u' \<subseteq> set w2" by auto
    with w2(2) return_header_nonspace [OF assms(2)] show ?thesis by blast
  next
    case short
    from qne have "last q \<in> set q" by simp
    also have "set q \<subseteq> set ''return''" using short(1) by (metis set_append Un_upper1)
    finally have "\<not> is_space (last q)" using not_space_return by blast
    with lq show ?thesis by simp
  qed
qed

lemma space_run_split:
  assumes "us @ v = w2 @ n @ w3" "\<forall>c\<in>set w2. is_space c" "n \<noteq> []" "\<forall>c\<in>set n. is_word c"
    "\<forall>c\<in>set w3. is_space c" "us \<noteq> []" "is_space (last us)" "\<exists>c\<in>set v. \<not> is_space c"
  shows "\<forall>c\<in>set us. is_space c"
proof (rule ccontr)
  assume n: "\<not> (\<forall>c\<in>set us. is_space c)"
  define q where "q = dropWhile is_space us"
  from n have qne: "q \<noteq> []" unfolding q_def by (rule dropWhile_nonspace)
  then have lq: "is_space (last q)" using assms(7) dropWhile_last [of is_space us] unfolding q_def by simp
  have d: "dropWhile is_space (us @ v) = q @ v"
    unfolding q_def using qne [unfolded q_def] by (rule dropWhile_nonempty_append)
  from assms(3,4) obtain c n' where nc: "n = c # n'" "is_word c" by (cases n) auto
  then have "\<not> is_space c" using space_not_word by blast
  then have "dropWhile is_space (w2 @ n @ w3) = n @ w3"
    using assms(2) nc(1) by (simp add: dropWhile_append2)
  with d assms(1) have e: "q @ v = n @ w3" by simp
  from e consider (long) t where "q = n @ t" "t @ v = w3"
    | (short) t where "q @ t = n" "v = t @ w3"
    unfolding append_eq_append_conv2 by blast
  then show False
  proof cases
    case long
    then have "set v \<subseteq> set w3" by auto
    with assms(5,8) show ?thesis by blast
  next
    case short
    from qne have "last q \<in> set q" by simp
    also have "set q \<subseteq> set n" using short(1) by (metis set_append Un_upper1)
    finally have "is_word (last q)" using assms(4) by blast
    with lq space_not_word show ?thesis by blast
  qed
qed

lemma def_header_split:
  assumes "def_header (x1 @ u')" "return_header u'" "x1 \<noteq> []" "is_space (last x1)"
  shows "\<exists>w w2. x1 = w @ ''def'' @ w2 \<and> (\<forall>c\<in>set w. is_space c) \<and> w2 \<noteq> []
           \<and> (\<forall>c\<in>set w2. is_space c)"
proof -
  from def_header_drop [OF assms(1)] obtain w2 n w3
    where h: "dropWhile is_space (x1 @ u') = ''def'' @ w2 @ n @ w3"
      "w2 \<noteq> []" "\<forall>c\<in>set w2. is_space c" "n \<noteq> []" "\<forall>c\<in>set n. is_word c" "\<forall>c\<in>set w3. is_space c"
    by blast
  have n: "\<not> (\<forall>c\<in>set x1. is_space c)"
  proof
    assume "\<forall>c\<in>set x1. is_space c"
    then have "dropWhile is_space (x1 @ u') = dropWhile is_space u'" by (simp add: dropWhile_append2)
    moreover from return_header_drop [OF assms(2)] obtain wb
      where "dropWhile is_space u' = ''return'' @ wb" by blast
    ultimately show False using h(1) by simp
  qed
  define q where "q = dropWhile is_space x1"
  from n have qne: "q \<noteq> []" unfolding q_def by (rule dropWhile_nonspace)
  then have lq: "is_space (last q)" using assms(4) dropWhile_last [of is_space x1] unfolding q_def by simp
  have d: "dropWhile is_space (x1 @ u') = q @ u'"
    unfolding q_def using qne [unfolded q_def] by (rule dropWhile_nonempty_append)
  with h(1) have e: "q @ u' = ''def'' @ (w2 @ n @ w3)" by simp
  from e consider (long) t where "q = ''def'' @ t" "t @ u' = w2 @ n @ w3"
    | (short) t where "q @ t = ''def''" "u' = t @ w2 @ n @ w3"
    unfolding append_eq_append_conv2 by blast
  then show ?thesis
  proof cases
    case long
    have tne: "t \<noteq> []"
    proof
      assume "t = []"
      with long(1) lq not_space_simps show False by simp
    qed
    then have lt: "is_space (last t)" using lq long(1) by simp
    from space_run_split [OF long(2) h(3) h(4) h(5) h(6) tne lt return_header_nonspace [OF assms(2)]]
    have sp: "\<forall>c\<in>set t. is_space c" .
    have "x1 = takeWhile is_space x1 @ q" by (simp add: q_def)
    then have "x1 = takeWhile is_space x1 @ ''def'' @ t" using long(1) by simp
    moreover have "\<forall>c\<in>set (takeWhile is_space x1). is_space c" by (auto dest: set_takeWhileD)
    ultimately show ?thesis using tne sp by blast
  next
    case short
    from qne have "last q \<in> set q" by simp
    also have "set q \<subseteq> set ''def''" using short(1) by (metis set_append Un_upper1)
    finally have "\<not> is_space (last q)" using not_space_def by blast
    with lq show ?thesis by simp
  qed
qed

subsection \<open>The text in front of the first opening parenthesis\<close>

lemma first_paren_function:
  assumes "function_pattern_sub bol s = x @ ''('' @ y'" "CHR ''('' \<notin> set x"
  shows "\<exists>y. s = x @ ''('' @ y \<and> closes y = closes y'"
  using assms
proof (induction x arbitrary: s bol)
  case Nil
  show ?case
  proof (cases rule: function_pattern_sub_cases [where s = s and bol = bol])
    case empty
    with Nil show ?thesis by simp
  next
    case (matched pre a r)
    from function_pattern_match_shape [OF matched(2)] obtain u
      where u: "def_header u" "pre = u @ ''(''" by blast
    from Nil(1) matched(3) u(2)
    have "u @ CHR ''('' # (single_line_arguments a @ ''):'' @ function_pattern_sub False r)
        = [] @ CHR ''('' # y'" by simp
    from first_occurrence_unique [OF def_header_no_paren(1) [OF u(1)] _ this]
    have "u = []" by simp
    with u(1) def_header_Nil show ?thesis by simp
  next
    case (copied c cs)
    from Nil(1) copied(3) have c: "c = CHR ''(''" and y': "y' = function_pattern_sub (c = newline) cs"
      by auto
    have "closes cs = closes y'" unfolding y' by (simp add: closes_function_pattern_sub)
    with copied(1) c show ?thesis by simp
  qed
next
  case (Cons d x)
  show ?case
  proof (cases rule: function_pattern_sub_cases [where s = s and bol = bol])
    case empty
    with Cons.prems show ?thesis by simp
  next
    case (matched pre a r)
    from function_pattern_match_shape [OF matched(2)] obtain u
      where u: "def_header u" "pre = u @ ''(''" "CHR '')'' \<notin> set a" "s = pre @ a @ ''):'' @ r"
      by blast
    from Cons.prems(1) matched(3) u(2)
    have "u @ CHR ''('' # (single_line_arguments a @ ''):'' @ function_pattern_sub False r)
        = (d # x) @ CHR ''('' # y'" by simp
    from first_occurrence_unique [OF def_header_no_paren(1) [OF u(1)] Cons.prems(2) this]
    have e: "u = d # x" "y' = single_line_arguments a @ ''):'' @ function_pattern_sub False r"
      by simp_all
    have "s = (d # x) @ ''('' @ (a @ ''):'' @ r)" using u(2,4) e(1) by simp
    moreover have "closes (a @ ''):'' @ r)" using u(3) by (rule closes_intro)
    moreover have "closes y'" unfolding e(2)
      using single_line_arguments_paren [OF u(3)] by (rule closes_intro)
    ultimately show ?thesis by blast
  next
    case (copied c cs)
    from Cons.prems(1) copied(3) have c: "c = d"
      and r: "function_pattern_sub (c = newline) cs = x @ ''('' @ y'" by auto
    from Cons.prems(2) have "CHR ''('' \<notin> set x" by simp
    from Cons.IH [OF r this] obtain y where "cs = x @ ''('' @ y" "closes y = closes y'" by blast
    with copied(1) c show ?thesis by simp
  qed
qed

lemma function_pattern_match_sub:
  assumes "function_pattern_match (function_pattern_sub True s) = Some (pre', a', r')"
  shows "\<exists>a r. function_pattern_match s = Some (pre', a, r)"
proof -
  from function_pattern_match_shape [OF assms] obtain u
    where u: "def_header u" "pre' = u @ ''(''" "CHR '')'' \<notin> set a'"
      "function_pattern_sub True s = pre' @ a' @ ''):'' @ r'" by blast
  from u(2,4) have "function_pattern_sub True s = u @ ''('' @ (a' @ ''):'' @ r')" by simp
  from first_paren_function [OF this def_header_no_paren(1) [OF u(1)]] obtain y
    where y: "s = u @ ''('' @ y" "closes y = closes (a' @ ''):'' @ r')" by blast
  from y(2) closes_intro [OF u(3)] have "closes y" by simp
  from closes_shape [OF this] obtain a r where a: "CHR '')'' \<notin> set a" "y = a @ ''):'' @ r" by blast
  from function_pattern_match_intro [OF u(1) a(1), of r] y(1) a(2) u(2)
  have "function_pattern_match s = Some (pre', a, r)" by simp
  then show ?thesis by blast
qed

lemma set_reformat_return: "set (reformat_return x) \<subseteq> set x \<union> {CHR '','', CHR '' ''}"
proof -
  have "set (re_sub_comma (re_sub_newline x)) \<subseteq> set (re_sub_newline x) \<union> {CHR '','', CHR '' ''}"
    by (rule re_sub_comma_set)
  moreover have "set (re_sub_newline x) \<subseteq> (set x - {newline}) \<union> {CHR '' ''}"
    by (rule re_sub_newline_set)
  ultimately show ?thesis unfolding reformat_return_def Let_def by blast
qed

lemma set_return_pattern_sub:
  "set (return_pattern_sub bol s) \<subseteq> set s \<union> {CHR '','', CHR '' ''}"
proof (induction s arbitrary: bol rule: length_induct)
  case (1 s)
  show ?case
  proof (cases rule: return_pattern_sub_cases [where s = s and bol = bol])
    case empty
    then show ?thesis by simp
  next
    case (matched x r)
    from return_pattern_match_shape [OF matched(2)] have s: "s = x @ r" by blast
    from 1 matched(4) have "set (return_pattern_sub False r) \<subseteq> set r \<union> {CHR '','', CHR '' ''}"
      by blast
    moreover note set_reformat_return [of x]
    moreover have "set s = set x \<union> set r" using s by simp
    moreover have "set (return_pattern_sub bol s)
        = set (reformat_return x) \<union> set (return_pattern_sub False r)"
      unfolding matched(3) by simp
    ultimately show ?thesis by blast
  next
    case (copied c cs)
    from 1 copied(1)
    have "set (return_pattern_sub (c = newline) cs) \<subseteq> set cs \<union> {CHR '','', CHR '' ''}" by simp
    moreover have "set (return_pattern_sub bol s) = {c} \<union> set (return_pattern_sub (c = newline) cs)"
      unfolding copied(3) by simp
    moreover have "set s = {c} \<union> set cs" using copied(1) by simp
    ultimately show ?thesis by blast
  qed
qed

lemma first_paren_return:
  assumes "return_pattern_sub bol s = x' @ ''('' @ y'" "CHR ''('' \<notin> set x'"
  shows "(\<exists>y. s = x' @ ''('' @ y \<and> y' = return_pattern_sub False y)
       \<or> (\<exists>x1 u u' b r. return_header u \<and> return_header u' \<and> CHR '')'' \<notin> set b
            \<and> line_start bol x1 \<and> s = x1 @ u @ ''('' @ b @ '')'' @ r \<and> x' = x1 @ u'
            \<and> y' = re_sub_comma (re_sub_newline b) @ '')'' @ return_pattern_sub False r)"
  using assms
proof (induction x' arbitrary: s bol)
  case Nil
  show ?case
  proof (cases rule: return_pattern_sub_cases [where s = s and bol = bol])
    case empty
    with Nil show ?thesis by simp
  next
    case (matched x r)
    from return_pattern_match_shape [OF matched(2)] obtain u b
      where u: "return_header u" "x = u @ ''('' @ b @ '')''" by blast
    from reformat_return_header [OF u(1), of b] obtain u'
      where u': "return_header u'"
        "reformat_return x = u' @ ''('' @ re_sub_comma (re_sub_newline b) @ '')''"
      unfolding u(2) by blast
    from Nil(1) matched(3) u'(2)
    have "u' @ CHR ''('' # (re_sub_comma (re_sub_newline b) @ '')'' @ return_pattern_sub False r)
        = [] @ CHR ''('' # y'" by simp
    from first_occurrence_unique [OF return_header_no_paren(1) [OF u'(1)] _ this]
    have "u' = []" by simp
    with u'(1) return_header_Nil show ?thesis by simp
  next
    case (copied c cs)
    from Nil(1) copied(3) have c: "c = CHR ''(''" and y': "y' = return_pattern_sub (c = newline) cs"
      by auto
    from c have "c \<noteq> newline" by (simp add: newline_def)
    with y' have "y' = return_pattern_sub False cs" by simp
    with copied(1) c show ?thesis by simp
  qed
next
  case (Cons d x')
  show ?case
  proof (cases rule: return_pattern_sub_cases [where s = s and bol = bol])
    case empty
    with Cons.prems show ?thesis by simp
  next
    case (matched x r)
    from return_pattern_match_shape [OF matched(2)] obtain u b
      where u: "return_header u" "CHR '')'' \<notin> set b" "x = u @ ''('' @ b @ '')''" "s = x @ r"
      by blast
    from reformat_return_header [OF u(1), of b] obtain u'
      where u': "return_header u'"
        "reformat_return x = u' @ ''('' @ re_sub_comma (re_sub_newline b) @ '')''"
      unfolding u(3) by blast
    from Cons.prems(1) matched(3) u'(2)
    have "u' @ CHR ''('' # (re_sub_comma (re_sub_newline b) @ '')'' @ return_pattern_sub False r)
        = (d # x') @ CHR ''('' # y'" by simp
    from first_occurrence_unique [OF return_header_no_paren(1) [OF u'(1)] Cons.prems(2) this]
    have e: "u' = d # x'" "y' = re_sub_comma (re_sub_newline b) @ '')'' @ return_pattern_sub False r"
      by simp_all
    have "s = [] @ u @ ''('' @ b @ '')'' @ r" using u(3,4) by simp
    moreover have "d # x' = [] @ u'" using e(1) by simp
    moreover have "line_start bol []" using matched(1) by (simp add: line_start_Nil)
    ultimately show ?thesis using u(1,2) u'(1) e(2) by blast
  next
    case (copied c cs)
    from Cons.prems(1) copied(3) have c: "c = d"
      and r: "return_pattern_sub (c = newline) cs = x' @ ''('' @ y'" by auto
    from Cons.prems(2) have "CHR ''('' \<notin> set x'" by simp
    from Cons.IH [OF r this]
    consider (plain) y where "cs = x' @ ''('' @ y" "y' = return_pattern_sub False y"
      | (inside) x1 u u' b r where "return_header u" "return_header u'" "CHR '')'' \<notin> set b"
          "line_start (c = newline) x1" "cs = x1 @ u @ ''('' @ b @ '')'' @ r" "x' = x1 @ u'"
          "y' = re_sub_comma (re_sub_newline b) @ '')'' @ return_pattern_sub False r"
      by blast
    then show ?thesis
    proof cases
      case plain
      with copied(1) c show ?thesis by simp
    next
      case inside
      have "s = (c # x1) @ u @ ''('' @ b @ '')'' @ r" using copied(1) inside(5) by simp
      moreover have "d # x' = (c # x1) @ u'" using c inside(6) by simp
      moreover have "line_start bol (c # x1)" using inside(4) by (simp add: line_start_Cons)
      ultimately show ?thesis using inside(1,2,3,7) by blast
    qed
  qed
qed

subsection \<open>A match in the output of a scan\<close>

lemma return_pattern_match_sub:
  assumes "return_pattern_match s = None"
  shows "return_pattern_match (return_pattern_sub True s) = None"
proof (rule ccontr)
  assume "return_pattern_match (return_pattern_sub True s) \<noteq> None"
  then obtain xo ro where m: "return_pattern_match (return_pattern_sub True s) = Some (xo, ro)"
    by auto
  from return_pattern_match_shape [OF m] obtain uo bo
    where uo: "return_header uo" "CHR '')'' \<notin> set bo" "xo = uo @ ''('' @ bo @ '')''"
      "return_pattern_sub True s = xo @ ro" by blast
  have o: "return_pattern_sub True s = uo @ ''('' @ (bo @ '')'' @ ro)" using uo(3,4) by simp
  from first_paren_return [OF o return_header_no_paren(1) [OF uo(1)]]
  consider (plain) y where "s = uo @ ''('' @ y" "bo @ '')'' @ ro = return_pattern_sub False y"
    | (inside) x1 u u' b r where "return_header u" "return_header u'" "CHR '')'' \<notin> set b"
        "line_start True x1" "s = x1 @ u @ ''('' @ b @ '')'' @ r" "uo = x1 @ u'"
    by blast
  then show False
  proof cases
    case plain
    have "CHR '')'' \<in> set (return_pattern_sub False y)" unfolding plain(2) [symmetric] by simp
    with set_return_pattern_sub [of False y] have "CHR '')'' \<in> set y" by auto
    from split_list_first [OF this] obtain b r where y: "y = b @ CHR '')'' # r" "CHR '')'' \<notin> set b"
      by blast
    from return_pattern_match_intro [OF uo(1) y(2), of r] plain(1) y(1)
    have "return_pattern_match s \<noteq> None" by simp
    with assms show ?thesis by simp
  next
    case inside
    have "return_header (x1 @ u)"
    proof (cases "x1 = []")
      case True
      with inside(1) show ?thesis by simp
    next
      case False
      with inside(4) have "last x1 = newline" by (simp add: line_start_last)
      then have "is_space (last x1)" by (simp add: newline_space)
      from return_header_split [OF _ inside(2) False this] uo(1) inside(6)
      have "\<forall>c\<in>set x1. is_space c" by simp
      then show ?thesis using inside(1) by (rule return_header_prepend)
    qed
    from return_pattern_match_intro [OF this inside(3), of r] inside(5)
    have "return_pattern_match s \<noteq> None" by simp
    with assms show ?thesis by simp
  qed
qed

lemma return_pattern_sub_line:
  "newline \<notin> set a \<Longrightarrow> return_pattern_sub False (a @ z) = a @ return_pattern_sub False z"
  by (induction a) (auto simp: return_pattern_sub_False)

lemma function_pattern_sub_line:
  "newline \<notin> set a \<Longrightarrow> function_pattern_sub False (a @ z) = a @ function_pattern_sub False z"
  by (induction a) (auto simp: function_pattern_sub_False)

lemma function_pattern_match_return_header:
  assumes "return_header u"
  shows "function_pattern_match (u @ z) = None"
proof -
  from assms obtain w w2 where u: "u = w @ ''return'' @ w2" and w: "\<forall>c\<in>set w. is_space c"
    unfolding return_header_def by blast
  have "dropWhile is_space (u @ z) = ''return'' @ w2 @ z"
    unfolding u using w not_space_simps by (simp add: dropWhile_append2)
  then show ?thesis unfolding function_pattern_match_def Let_def by simp
qed

lemma headers_joined_head:
  assumes "headers_joined True t" "function_pattern_match t = Some (pre, a, r)"
  shows "single_line_arguments a = a"
proof -
  have "t = [] @ t" "line_start True []" by (simp_all add: line_start_Nil)
  with assms show ?thesis unfolding headers_joined_def by blast
qed

lemma returns_joined_head:
  assumes "returns_joined True t" "return_pattern_match t = Some (x, r)"
  shows "reformat_return x = x"
proof -
  have "t = [] @ t" "line_start True []" by (simp_all add: line_start_Nil)
  with assms show ?thesis unfolding returns_joined_def by blast
qed

lemma headers_joined_tail:
  assumes "headers_joined bol (p @ t)"
  shows "headers_joined (line_start bol p) t"
  unfolding headers_joined_def
proof (intro allI impI)
  fix u v pre arguments rest
  assume h: "t = u @ v \<and> line_start (line_start bol p) u
    \<and> function_pattern_match v = Some (pre, arguments, rest)"
  then have "p @ t = (p @ u) @ v" "line_start bol (p @ u)"
    by (simp_all add: line_start_append)
  with assms h show "single_line_arguments arguments = arguments"
    unfolding headers_joined_def by blast
qed

lemma returns_joined_tail:
  assumes "returns_joined bol (p @ t)"
  shows "returns_joined (line_start bol p) t"
  unfolding returns_joined_def
proof (intro allI impI)
  fix u v return_statement rest
  assume h: "t = u @ v \<and> line_start (line_start bol p) u
    \<and> return_pattern_match v = Some (return_statement, rest)"
  then have "p @ t = (p @ u) @ v" "line_start bol (p @ u)"
    by (simp_all add: line_start_append)
  with assms h show "reformat_return return_statement = return_statement"
    unfolding returns_joined_def by blast
qed

lemma function_pattern_match_return_sub:
  assumes "headers_joined True t"
    and "function_pattern_match (return_pattern_sub True t) = Some (pre', a', r')"
  shows "single_line_arguments a' = a'"
proof -
  from function_pattern_match_shape [OF assms(2)] obtain u'
    where u': "def_header u'" "pre' = u' @ ''(''" "CHR '')'' \<notin> set a'"
      "return_pattern_sub True t = pre' @ a' @ ''):'' @ r'" by blast
  have o: "return_pattern_sub True t = u' @ ''('' @ (a' @ ''):'' @ r')" using u'(2,4) by simp
  from first_paren_return [OF o def_header_no_paren(1) [OF u'(1)]]
  consider (plain) y where "t = u' @ ''('' @ y" "a' @ ''):'' @ r' = return_pattern_sub False y"
    | (inside) x1 u u2 b r where "return_header u" "return_header u2" "CHR '')'' \<notin> set b"
        "line_start True x1" "t = x1 @ u @ ''('' @ b @ '')'' @ r" "u' = x1 @ u2"
        "a' @ ''):'' @ r' = re_sub_comma (re_sub_newline b) @ '')'' @ return_pattern_sub False r"
    by blast
  then show ?thesis
  proof cases
    case plain
    have "closes (return_pattern_sub False y)"
      unfolding plain(2) [symmetric] using u'(3) by (rule closes_intro)
    then have "closes y" by (simp add: closes_return_pattern_sub)
    from closes_shape [OF this] obtain a r where a: "CHR '')'' \<notin> set a" "y = a @ ''):'' @ r" by blast
    from function_pattern_match_intro [OF u'(1) a(1), of r] plain(1) a(2)
    have "function_pattern_match t = Some (u' @ ''('', a, r)" by simp
    from headers_joined_head [OF assms(1) this] have f: "single_line_arguments a = a" .
    from single_line_arguments_fixed(1) [OF f] have "newline \<notin> set a" .
    then have "return_pattern_sub False y = a @ return_pattern_sub False (''):'' @ r)"
      unfolding a(2) by (rule return_pattern_sub_line)
    then have "a' @ CHR '')'' # ('':'' @ r') = a @ CHR '')'' # return_pattern_sub False ('':'' @ r)"
      using plain(2) by (simp add: return_pattern_sub_False newline_def)
    from first_occurrence_unique [OF u'(3) a(1) this] have "a' = a" by simp
    with f show ?thesis by simp
  next
    case inside
    have "a' @ CHR '')'' # ('':'' @ r')
        = re_sub_comma (re_sub_newline b) @ CHR '')'' # return_pattern_sub False r"
      using inside(7) by simp
    from first_occurrence_unique [OF u'(3) reformat_return_paren [OF inside(3)] this]
    have e: "a' = re_sub_comma (re_sub_newline b)" "'':'' @ r' = return_pattern_sub False r"
      by simp_all
    from e(2) have "prefix '':'' (return_pattern_sub False r)" by (metis prefixI)
    then have "prefix '':'' r" by (simp add: return_pattern_sub_colon)
    then obtain r2 where r2: "r = '':'' @ r2" unfolding prefix_def by blast
    have x1: "x1 \<noteq> []"
    proof
      assume "x1 = []"
      with inside(6) u'(1) inside(2) header_clash show False by simp
    qed
    with inside(4) have "last x1 = newline" by (simp add: line_start_last)
    then have "is_space (last x1)" by (simp add: newline_space)
    from def_header_split [OF _ inside(2) x1 this] u'(1) inside(6)
    obtain w w2 where w: "x1 = w @ ''def'' @ w2" "\<forall>c\<in>set w. is_space c" "w2 \<noteq> []"
      "\<forall>c\<in>set w2. is_space c" by blast
    from def_header_return [OF w(2,3,4) inside(1)] w(1) have h: "def_header (x1 @ u)" by simp
    have "t = (x1 @ u) @ ''('' @ b @ ''):'' @ r2" using inside(5) r2 by simp
    with function_pattern_match_intro [OF h inside(3), of r2]
    have "function_pattern_match t = Some ((x1 @ u) @ ''('', b, r2)" by simp
    from headers_joined_head [OF assms(1) this] have f: "single_line_arguments b = b" .
    from single_line_arguments_fixed [OF f] have "newline \<notin> set b" "re_sub_comma b = b" .
    then have "re_sub_comma (re_sub_newline b) = b" by (simp add: re_sub_newline_none)
    with e(1) f show ?thesis by simp
  qed
qed

subsection \<open>Joined texts\<close>

lemma split_line_start:
  assumes "u @ v = A @ M @ B" "u \<noteq> []" "last u = newline" "newline \<notin> set M" "M \<noteq> []"
  shows "(\<exists>p. A = u @ p \<and> v = p @ M @ B) \<or> (\<exists>u2. u = A @ M @ u2 \<and> u2 \<noteq> [] \<and> B = u2 @ v)"
proof -
  from assms(1) consider (long) us where "u = A @ us" "us @ v = M @ B"
    | (short) us where "u @ us = A" "v = us @ M @ B"
    unfolding append_eq_append_conv2 by blast
  then show ?thesis
  proof cases
    case short
    then show ?thesis by blast
  next
    case long
    show ?thesis
    proof (cases "us = []")
      case True
      with long show ?thesis by simp
    next
      case False
      then have lu: "last us = newline" using long(1) assms(3) by simp
      from long(2) consider (long2) t where "us = M @ t" "t @ v = B"
        | (short2) t where "us @ t = M" "v = t @ B"
        unfolding append_eq_append_conv2 by blast
      then show ?thesis
      proof cases
        case long2
        show ?thesis
        proof (cases "t = []")
          case True
          with long2(1) lu assms(5) have "newline \<in> set M" by (metis append_Nil2 last_in_set)
          with assms(4) show ?thesis by simp
        next
          case False
          with long(1) long2 show ?thesis by auto
        qed
      next
        case short2
        from False have "last us \<in> set us" by simp
        also have "set us \<subseteq> set M" using short2(1) by (metis set_append Un_upper1)
        finally show ?thesis using lu assms(4) by simp
      qed
    qed
  qed
qed

lemma function_pattern_sub_joined:
  "headers_joined bol t \<Longrightarrow> function_pattern_sub bol t = t"
proof (induction t arbitrary: bol rule: length_induct)
  case (1 t)
  show ?case
  proof (cases rule: function_pattern_sub_cases [where s = t and bol = bol])
    case empty
    then show ?thesis by simp
  next
    case (matched pre a r)
    from function_pattern_match_shape [OF matched(2)]
    have t: "t = (pre @ a @ ''):'') @ r" by auto
    from matched(1) 1(2) have j: "headers_joined True t" by simp
    from headers_joined_head [OF j matched(2)] have f: "single_line_arguments a = a" .
    from headers_joined_tail [of True "pre @ a @ ''):''" r] j t
    have "headers_joined (line_start True (pre @ a @ ''):'')) r" by simp
    moreover have "line_start True (pre @ a @ ''):'') = False"
      by (simp add: line_start_def newline_def)
    ultimately have "headers_joined False r" by simp
    with 1(1) matched(4) have "function_pattern_sub False r = r" by blast
    with matched(3) f t show ?thesis by simp
  next
    case (copied c cs)
    from headers_joined_tail [of bol "[c]" cs] 1(2) copied(1)
    have "headers_joined (c = newline) cs" by (simp add: line_start_def)
    with 1(1) copied(1) have "function_pattern_sub (c = newline) cs = cs" by simp
    with copied(1,3) show ?thesis by simp
  qed
qed

lemma return_pattern_sub_joined:
  "returns_joined bol t \<Longrightarrow> return_pattern_sub bol t = t"
proof (induction t arbitrary: bol rule: length_induct)
  case (1 t)
  show ?case
  proof (cases rule: return_pattern_sub_cases [where s = t and bol = bol])
    case empty
    then show ?thesis by simp
  next
    case (matched x r)
    from return_pattern_match_shape [OF matched(2)] obtain u b
      where t: "t = x @ r" and x: "x = u @ ''('' @ b @ '')''" by blast
    from matched(1) 1(2) have j: "returns_joined True t" by simp
    from returns_joined_head [OF j matched(2)] have f: "reformat_return x = x" .
    from returns_joined_tail [of True x r] j t
    have "returns_joined (line_start True x) r" by simp
    moreover have "line_start True x = False"
      unfolding x by (simp add: line_start_def newline_def)
    ultimately have "returns_joined False r" by simp
    with 1(1) matched(4) have "return_pattern_sub False r = r" by blast
    with matched(3) f t show ?thesis by simp
  next
    case (copied c cs)
    from returns_joined_tail [of bol "[c]" cs] 1(2) copied(1)
    have "returns_joined (c = newline) cs" by (simp add: line_start_def)
    with 1(1) copied(1) have "return_pattern_sub (c = newline) cs = cs" by simp
    with copied(1,3) show ?thesis by simp
  qed
qed

lemma headers_joined_function_pattern_sub: "headers_joined bol (function_pattern_sub bol s)"
proof (induction s arbitrary: bol rule: length_induct)
  case (1 s)
  show ?case
    unfolding headers_joined_def
  proof (intro allI impI)
    fix u v pre' a' r'
    assume h: "function_pattern_sub bol s = u @ v \<and> line_start bol u
      \<and> function_pattern_match v = Some (pre', a', r')"
    then have o: "function_pattern_sub bol s = u @ v" and ls: "line_start bol u"
      and m: "function_pattern_match v = Some (pre', a', r')" by blast+
    from function_pattern_match_shape [OF m] obtain u'
      where u': "def_header u'" "pre' = u' @ ''(''" "CHR '')'' \<notin> set a'"
        "v = pre' @ a' @ ''):'' @ r'" by blast
    show "single_line_arguments a' = a'"
    proof (cases rule: function_pattern_sub_cases [where s = s and bol = bol])
      case empty
      with o have "v = []" by simp
      with m show ?thesis by (simp add: function_pattern_match_Nil)
    next
      case (matched pre a r)
      from function_pattern_match_shape [OF matched(2)] obtain u0
        where u0: "def_header u0" "pre = u0 @ ''(''" "CHR '')'' \<notin> set a" by blast
      define M where "M = single_line_arguments a @ ''):''"
      have Mn: "newline \<notin> set M" "M \<noteq> []"
        unfolding M_def using single_line_arguments_no_newline [of a] by (simp_all add: newline_def)
      have np: "CHR '')'' \<notin> set (single_line_arguments a)"
        using u0(3) by (rule single_line_arguments_paren)
      have e: "u @ v = pre @ M @ function_pattern_sub False r"
        using o matched(3) by (simp add: M_def)
      show ?thesis
      proof (cases "u = []")
        case True
        with e have "v = u0 @ ''('' @ single_line_arguments a @ ''):'' @ function_pattern_sub False r"
          by (simp add: M_def u0(2))
        with function_pattern_match_intro [OF u0(1) np, of "function_pattern_sub False r"] m
        have "a' = single_line_arguments a" by simp
        then show ?thesis by (simp add: single_line_arguments_idem)
      next
        case False
        with ls have lu: "last u = newline" by (simp add: line_start_last)
        from split_line_start [OF e False lu Mn]
        consider (header) p where "pre = u @ p" "v = p @ M @ function_pattern_sub False r"
          | (behind) u2 where "u = pre @ M @ u2" "u2 \<noteq> []" "function_pattern_sub False r = u2 @ v"
          by blast
        then show ?thesis
        proof cases
          case header
          have "p \<noteq> []"
          proof
            assume "p = []"
            with header(1) u0(2) have "u = u0 @ ''(''" by simp
            then have "last u = CHR ''(''" by simp
            with lu show False by (simp add: newline_def)
          qed
          then have "last p = CHR ''(''" using header(1) u0(2)
            by (metis last_appendR last_snoc append_Cons append_Nil)
          with \<open>p \<noteq> []\<close> obtain p3 where p3: "p = p3 @ ''(''"
            by (metis append_butlast_last_id)
          with header(1) u0(2) have "u0 = u @ p3" by simp
          with def_header_no_paren(1) [OF u0(1)] have n3: "CHR ''('' \<notin> set p3" by simp
          have "p3 @ CHR ''('' # (single_line_arguments a @ ''):'' @ function_pattern_sub False r)
              = u' @ CHR ''('' # (a' @ ''):'' @ r')"
            using header(2) p3 u'(2,4) by (simp add: M_def)
          from first_occurrence_unique [OF n3 def_header_no_paren(1) [OF u'(1)] this]
          have "single_line_arguments a @ CHR '')'' # ('':'' @ function_pattern_sub False r)
              = a' @ CHR '')'' # ('':'' @ r')" by simp
          from first_occurrence_unique [OF np u'(3) this]
          have "a' = single_line_arguments a" by simp
          then show ?thesis by (simp add: single_line_arguments_idem)
        next
          case behind
          from 1 matched(4) have "headers_joined False (function_pattern_sub False r)" by blast
          moreover have "line_start False u2" using behind(1,2) lu by (simp add: line_start_False)
          ultimately show ?thesis using behind(3) m unfolding headers_joined_def by blast
        qed
      qed
    next
      case (copied c cs)
      show ?thesis
      proof (cases u)
        case Nil
        with ls have b: "bol" by (simp add: line_start_Nil)
        with copied(2) have n: "function_pattern_match s = None" by simp
        from Nil o b m have "function_pattern_match (function_pattern_sub True s) = Some (pre', a', r')"
          by simp
        from function_pattern_match_sub [OF this] n show ?thesis by simp
      next
        case (Cons d u1)
        with o copied(3) have d: "d = c" and o1: "function_pattern_sub (c = newline) cs = u1 @ v"
          by auto
        from ls Cons d have "line_start (c = newline) u1" by (simp add: line_start_Cons)
        moreover from 1 copied(1) have "headers_joined (c = newline) (function_pattern_sub (c = newline) cs)"
          by simp
        ultimately show ?thesis using o1 m unfolding headers_joined_def by blast
      qed
    qed
  qed
qed

lemma reformat_return_Nil: "reformat_return x = [] \<longleftrightarrow> x = []"
proof
  assume "reformat_return x = []"
  show "x = []"
  proof (rule ccontr)
    assume "x \<noteq> []"
    then obtain c cs where x: "x = c # cs" by (cases x) auto
    have "re_sub_newline x \<noteq> []"
    proof (cases "newline \<in> set (takeWhile is_space (c # cs))")
      case True
      from re_sub_newline_step_yes [OF this] show ?thesis unfolding x by simp
    next
      case False
      from re_sub_newline_step_no [OF this] show ?thesis unfolding x by simp
    qed
    then obtain d ds where n: "re_sub_newline x = d # ds" by (cases "re_sub_newline x") auto
    have "re_sub_comma (d # ds) \<noteq> []"
    proof (cases "dropWhile is_space (d # ds)")
      case Nil
      from re_sub_comma_step_Nil [OF this] show ?thesis by simp
    next
      case (Cons e r)
      show ?thesis
      proof (cases "e = CHR '',''")
        case True
        with Cons re_sub_comma_step_comma [of d ds r] show ?thesis by simp
      next
        case False
        with Cons re_sub_comma_step_other [of d ds e r] show ?thesis by simp
      qed
    qed
    with \<open>reformat_return x = []\<close> n show False by (simp add: reformat_return_def)
  qed
next
  assume "x = []"
  then show "reformat_return x = []" by (simp add: reformat_return_def)
qed

lemma returns_joined_return_pattern_sub: "returns_joined bol (return_pattern_sub bol s)"
proof (induction s arbitrary: bol rule: length_induct)
  case (1 s)
  show ?case
    unfolding returns_joined_def
  proof (intro allI impI)
    fix u v x' r'
    assume h: "return_pattern_sub bol s = u @ v \<and> line_start bol u
      \<and> return_pattern_match v = Some (x', r')"
    then have o: "return_pattern_sub bol s = u @ v" and ls: "line_start bol u"
      and m: "return_pattern_match v = Some (x', r')" by blast+
    show "reformat_return x' = x'"
    proof (cases rule: return_pattern_sub_cases [where s = s and bol = bol])
      case empty
      with o have "v = []" by simp
      with m show ?thesis by (simp add: return_pattern_match_Nil)
    next
      case (matched x r)
      from return_pattern_match_shape [OF matched(2)] obtain u0 b
        where u0: "return_header u0" "CHR '')'' \<notin> set b" "x = u0 @ ''('' @ b @ '')''" by blast
      from reformat_return_header [OF u0(1), of b] obtain u1
        where u1: "return_header u1"
          "reformat_return x = u1 @ ''('' @ re_sub_comma (re_sub_newline b) @ '')''"
        unfolding u0(3) by blast
      define M where "M = reformat_return x"
      have Mn: "newline \<notin> set M" "M \<noteq> []"
        unfolding M_def using reformat_return_no_newline [of x] u0(3)
        by (simp_all add: reformat_return_Nil)
      have e: "u @ v = [] @ M @ return_pattern_sub False r"
        using o matched(3) by (simp add: M_def)
      show ?thesis
      proof (cases "u = []")
        case True
        with e have "v = u1 @ ''('' @ re_sub_comma (re_sub_newline b) @ '')'' @ return_pattern_sub False r"
          by (simp add: M_def u1(2))
        with return_pattern_match_intro [OF u1(1) reformat_return_paren [OF u0(2)],
            of "return_pattern_sub False r"] m u1(2)
        have "x' = reformat_return x" by simp
        then show ?thesis by (simp add: reformat_return_idem)
      next
        case False
        with ls have lu: "last u = newline" by (simp add: line_start_last)
        from split_line_start [OF e False lu Mn] False
        obtain u2 where u2: "u = [] @ M @ u2" "u2 \<noteq> []" "return_pattern_sub False r = u2 @ v"
          by auto
        from 1 matched(4) have "returns_joined False (return_pattern_sub False r)" by blast
        moreover have "line_start False u2" using u2(1,2) lu by (simp add: line_start_False)
        ultimately show ?thesis using u2(3) m unfolding returns_joined_def by blast
      qed
    next
      case (copied c cs)
      show ?thesis
      proof (cases u)
        case Nil
        with ls have b: "bol" by (simp add: line_start_Nil)
        with copied(2) have n: "return_pattern_match s = None" by simp
        from Nil o b m have "return_pattern_match (return_pattern_sub True s) = Some (x', r')"
          by simp
        with return_pattern_match_sub [OF n] show ?thesis by simp
      next
        case (Cons d u1)
        with o copied(3) have d: "d = c" and o1: "return_pattern_sub (c = newline) cs = u1 @ v"
          by auto
        from ls Cons d have "line_start (c = newline) u1" by (simp add: line_start_Cons)
        moreover from 1 copied(1) have "returns_joined (c = newline) (return_pattern_sub (c = newline) cs)"
          by simp
        ultimately show ?thesis using o1 m unfolding returns_joined_def by blast
      qed
    qed
  qed
qed

lemma headers_joined_return_pattern_sub:
  "headers_joined bol t \<Longrightarrow> headers_joined bol (return_pattern_sub bol t)"
proof (induction t arbitrary: bol rule: length_induct)
  case (1 t)
  show ?case
    unfolding headers_joined_def
  proof (intro allI impI)
    fix u v pre' a' r'
    assume h: "return_pattern_sub bol t = u @ v \<and> line_start bol u
      \<and> function_pattern_match v = Some (pre', a', r')"
    then have o: "return_pattern_sub bol t = u @ v" and ls: "line_start bol u"
      and m: "function_pattern_match v = Some (pre', a', r')" by blast+
    show "single_line_arguments a' = a'"
    proof (cases rule: return_pattern_sub_cases [where s = t and bol = bol])
      case empty
      with o have "v = []" by simp
      with m show ?thesis by (simp add: function_pattern_match_Nil)
    next
      case (matched x r)
      from return_pattern_match_shape [OF matched(2)] obtain u0 b
        where u0: "return_header u0" "CHR '')'' \<notin> set b" "x = u0 @ ''('' @ b @ '')''" "t = x @ r"
        by blast
      from reformat_return_header [OF u0(1), of b] obtain u1
        where u1: "return_header u1"
          "reformat_return x = u1 @ ''('' @ re_sub_comma (re_sub_newline b) @ '')''"
        unfolding u0(3) by blast
      define M where "M = reformat_return x"
      have Mn: "newline \<notin> set M" "M \<noteq> []"
        unfolding M_def using reformat_return_no_newline [of x] u0(3)
        by (simp_all add: reformat_return_Nil)
      have e: "u @ v = [] @ M @ return_pattern_sub False r"
        using o matched(3) by (simp add: M_def)
      show ?thesis
      proof (cases "u = []")
        case True
        with e have "v = u1 @ (''('' @ re_sub_comma (re_sub_newline b) @ '')'' @ return_pattern_sub False r)"
          by (simp add: M_def u1(2))
        with function_pattern_match_return_header [OF u1(1)] m show ?thesis by simp
      next
        case False
        with ls have lu: "last u = newline" by (simp add: line_start_last)
        from split_line_start [OF e False lu Mn] False
        obtain u2 where u2: "u = [] @ M @ u2" "u2 \<noteq> []" "return_pattern_sub False r = u2 @ v"
          by auto
        from matched(1) 1(2) u0(4) have "headers_joined True (x @ r)" by simp
        from headers_joined_tail [OF this] have "headers_joined (line_start True x) r" .
        moreover have "line_start True x = False"
          unfolding u0(3) by (simp add: line_start_def newline_def)
        ultimately have "headers_joined False r" by simp
        with 1(1) matched(4) have "headers_joined False (return_pattern_sub False r)" by blast
        moreover have "line_start False u2" using u2(1,2) lu by (simp add: line_start_False)
        ultimately show ?thesis using u2(3) m unfolding headers_joined_def by blast
      qed
    next
      case (copied c cs)
      show ?thesis
      proof (cases u)
        case Nil
        with ls have b: "bol" by (simp add: line_start_Nil)
        from Nil o b m have "function_pattern_match (return_pattern_sub True t) = Some (pre', a', r')"
          by simp
        moreover from b 1(2) have "headers_joined True t" by simp
        ultimately show ?thesis by (rule function_pattern_match_return_sub [rotated])
      next
        case (Cons d u1)
        with o copied(3) have d: "d = c" and o1: "return_pattern_sub (c = newline) cs = u1 @ v"
          by auto
        from ls Cons d have l1: "line_start (c = newline) u1" by (simp add: line_start_Cons)
        from headers_joined_tail [of bol "[c]" cs] 1(2) copied(1)
        have "headers_joined (c = newline) cs" by (simp add: line_start_def)
        with 1(1) copied(1) have "headers_joined (c = newline) (return_pattern_sub (c = newline) cs)"
          by simp
        with l1 show ?thesis using o1 m unfolding headers_joined_def by blast
      qed
    qed
  qed
qed

subsection \<open>Idempotence\<close>

text \<open>
  C5. The text that the declaration rewrite leaves has only joined headers at its line
  starts, and the return rewrite keeps them joined and leaves only joined return
  statements; each rewrite is the identity on a text whose matches are joined. So the
  Line-Joiner applied twice gives what it gives applied once, and each of the two
  rewrites leaves the text of the Line-Joiner as it is, for every input.
\<close>

theorem line_joiner_idempotent:
  "line_joiner (line_joiner source_code) = line_joiner source_code
   \<and> format_function_declarations_to_single_line (line_joiner source_code) = line_joiner source_code
   \<and> format_return_statements_to_single_line (line_joiner source_code) = line_joiner source_code"
proof -
  let ?d = "function_pattern_sub True source_code"
  let ?l = "return_pattern_sub True ?d"
  have l: "line_joiner source_code = ?l"
    by (simp add: line_joiner_def format_function_declarations_to_single_line_def
        format_return_statements_to_single_line_def)
  have "headers_joined True ?d" by (rule headers_joined_function_pattern_sub)
  then have "headers_joined True ?l" by (rule headers_joined_return_pattern_sub)
  then have d: "function_pattern_sub True ?l = ?l" by (rule function_pattern_sub_joined)
  have "returns_joined True ?l" by (rule returns_joined_return_pattern_sub)
  then have r: "return_pattern_sub True ?l = ?l" by (rule return_pattern_sub_joined)
  have "line_joiner ?l = return_pattern_sub True (function_pattern_sub True ?l)"
    by (simp add: line_joiner_def format_function_declarations_to_single_line_def
        format_return_statements_to_single_line_def)
  also have "\<dots> = ?l" unfolding d r ..
  finally have "line_joiner ?l = ?l" .
  with d r show ?thesis
    unfolding l format_function_declarations_to_single_line_def
      format_return_statements_to_single_line_def by simp
qed

text \<open>
  The example with a header and a return statement over two lines each: the Line-Joiner
  joins both, and a second application changes nothing.
\<close>

theorem line_joiner_idempotent_witness:
  "line_joiner two_functions_source
     = new_lines [''import m'', ''def f(a, b):'', ''    x = 1'', ''    return (x, a)'',
         ''def g():'', ''    y = 2'', ''    return y'', '''']
   \<and> line_joiner (line_joiner two_functions_source) = line_joiner two_functions_source"
proof -
  have a: "line_joiner two_functions_source
     = new_lines [''import m'', ''def f(a, b):'', ''    x = 1'', ''    return (x, a)'',
         ''def g():'', ''    y = 2'', ''    return y'', '''']"
    by code_simp
  from line_joiner_idempotent [of two_functions_source]
  have "line_joiner (line_joiner two_functions_source) = line_joiner two_functions_source"
    by blast
  with a show ?thesis by blast
qed

end
